theory Spec2Isabelle
  imports Main "HOL-Library.List_Lexorder" "HOL-Library.Product_Lexorder"
begin

section \<open>The 8-puzzle solver of project.py\<close>

text \<open>
  The search core of \<^verbatim>\<open>src/project.py\<close>: \<^verbatim>\<open>find_zero\<close>, \<^verbatim>\<open>get_neighbors\<close>,
  \<^verbatim>\<open>is_solvable\<close>, \<^verbatim>\<open>shuffle_puzzle\<close>, \<^verbatim>\<open>reconstruct_path\<close>, \<^verbatim>\<open>bfs\<close>, \<^verbatim>\<open>dfs\<close> and
  \<^verbatim>\<open>ucs\<close>. A grid is a Python list of lists of integers. Python exceptions are values
  of \<open>py_error\<close>, in the left summand of the result. A \<^verbatim>\<open>while\<close> loop of the source whose
  termination depends on its data is a \<^theory_text>\<open>partial_function\<close> in the option monad:
  \<open>None\<close> is a run that never leaves the loop.
\<close>

subsection \<open>Values, errors, indexing\<close>

datatype py_error = IndexError | TypeError

type_synonym grid = "int list list"

type_synonym pos = "int \<times> int"

definition bind_err :: "py_error + 'a \<Rightarrow> ('a \<Rightarrow> py_error + 'b) \<Rightarrow> py_error + 'b" where
  "bind_err m f = (case m of Inl e \<Rightarrow> Inl e | Inr x \<Rightarrow> f x)"

text \<open>\<^verbatim>\<open>xs[i]\<close> and \<^verbatim>\<open>xs[i] = v\<close>: an index below zero counts from the end, an index
  outside the list raises \<^verbatim>\<open>IndexError\<close>.\<close>

definition py_index :: "'a list \<Rightarrow> int \<Rightarrow> py_error + nat" where
  "py_index xs i =
     (if 0 \<le> i \<and> i < int (length xs) then Inr (nat i)
      else if i < 0 \<and> - int (length xs) \<le> i then Inr (nat (int (length xs) + i))
      else Inl IndexError)"

definition getitem :: "'a list \<Rightarrow> int \<Rightarrow> py_error + 'a" where
  "getitem xs i = bind_err (py_index xs i) (\<lambda>k. Inr (xs ! k))"

definition setitem :: "'a list \<Rightarrow> int \<Rightarrow> 'a \<Rightarrow> py_error + 'a list" where
  "setitem xs i v = bind_err (py_index xs i) (\<lambda>k. Inr (xs[k := v]))"

definition GRID_SIZE :: int where
  "GRID_SIZE = 3"

definition goal_state :: grid where
  "goal_state = [[1, 2, 3], [4, 5, 6], [7, 8, 0]]"

text \<open>\<^verbatim>\<open>range(n)\<close>.\<close>

definition py_range :: "int \<Rightarrow> int list" where
  "py_range n = map int [0..<nat n]"

subsection \<open>find_zero\<close>

text \<open>The inner loop over the columns of one row, then the outer loop over the rows;
  the first cell equal to 0 ends both.\<close>

fun find_zero_cols :: "grid \<Rightarrow> int \<Rightarrow> int list \<Rightarrow> py_error + pos option" where
  "find_zero_cols state row [] = Inr None"
| "find_zero_cols state row (col # cols) =
     bind_err (getitem state row) (\<lambda>r.
     bind_err (getitem r col) (\<lambda>v.
       if v = 0 then Inr (Some (row, col)) else find_zero_cols state row cols))"

fun find_zero_rows :: "grid \<Rightarrow> int list \<Rightarrow> py_error + pos option" where
  "find_zero_rows state [] = Inr None"
| "find_zero_rows state (row # rows) =
     bind_err (find_zero_cols state row (py_range GRID_SIZE)) (\<lambda>found.
       case found of Some p \<Rightarrow> Inr (Some p) | None \<Rightarrow> find_zero_rows state rows)"

definition find_zero :: "grid \<Rightarrow> py_error + pos option" where
  "find_zero state = find_zero_rows state (py_range GRID_SIZE)"

subsection \<open>get_neighbors\<close>

definition directions :: "(int \<times> int) list" where
  "directions = [(-1, 0), (1, 0), (0, -1), (0, 1)]"

text \<open>\<^verbatim>\<open>state[r][c]\<close> and \<^verbatim>\<open>state[r][c] = v\<close> on the value of a grid.\<close>

definition grid_get :: "grid \<Rightarrow> int \<Rightarrow> int \<Rightarrow> py_error + int" where
  "grid_get state r c = bind_err (getitem state r) (\<lambda>row. getitem row c)"

definition grid_set :: "grid \<Rightarrow> int \<Rightarrow> int \<Rightarrow> int \<Rightarrow> py_error + grid" where
  "grid_set state r c v =
     bind_err (getitem state r) (\<lambda>row.
     bind_err (setitem row c v) (\<lambda>row'. setitem state r row'))"

text \<open>The body of the \<^verbatim>\<open>if\<close> on values: \<^verbatim>\<open>new_state\<close> is a copy of \<^verbatim>\<open>state\<close>, the
  blank's cell takes the value at \<^verbatim>\<open>(new_row, new_col)\<close>, which becomes 0. The right-hand
  side of the first assignment is read before its target is.\<close>

definition slide :: "grid \<Rightarrow> pos \<Rightarrow> pos \<Rightarrow> py_error + grid" where
  "slide state zero_pos new_pos =
     bind_err (grid_get state (fst new_pos) (snd new_pos)) (\<lambda>v.
     bind_err (grid_set state (fst zero_pos) (snd zero_pos) v) (\<lambda>new_state.
       grid_set new_state (fst new_pos) (snd new_pos) 0))"

text \<open>The loop over the four directions. \<^verbatim>\<open>zero_pos[0]\<close> on \<^verbatim>\<open>None\<close> raises
  \<^verbatim>\<open>TypeError\<close>.\<close>

fun neighbors_loop :: "grid \<Rightarrow> pos option \<Rightarrow> (int \<times> int) list \<Rightarrow> grid list \<Rightarrow> py_error + grid list" where
  "neighbors_loop state zero_pos [] neighbors = Inr neighbors"
| "neighbors_loop state zero_pos ((dr, dc) # ds) neighbors =
     (case zero_pos of
        None \<Rightarrow> Inl TypeError
      | Some (zr, zc) \<Rightarrow>
          (let new_row = zr + dr; new_col = zc + dc in
           if 0 \<le> new_row \<and> new_row < GRID_SIZE \<and> 0 \<le> new_col \<and> new_col < GRID_SIZE
           then bind_err (slide state (zr, zc) (new_row, new_col)) (\<lambda>new_state.
                  neighbors_loop state zero_pos ds (neighbors @ [new_state]))
           else neighbors_loop state zero_pos ds neighbors))"

definition get_neighbors :: "grid \<Rightarrow> py_error + grid list" where
  "get_neighbors state =
     bind_err (find_zero state) (\<lambda>zero_pos. neighbors_loop state zero_pos directions [])"

subsection \<open>is_solvable\<close>

definition flat_state :: "grid \<Rightarrow> int list" where
  "flat_state state = filter (\<lambda>num. num \<noteq> 0) (concat state)"

text \<open>The two nested \<^verbatim>\<open>for\<close> loops over \<^verbatim>\<open>i\<close> and \<^verbatim>\<open>j\<close>, threading the counter.\<close>

definition count_inversions :: "int list \<Rightarrow> nat" where
  "count_inversions flat =
     fold (\<lambda>i inversions.
       fold (\<lambda>j inversions. if flat ! i > flat ! j then inversions + 1 else inversions)
         [i + 1..<length flat] inversions)
       [0..<length flat] 0"

definition is_solvable :: "grid \<Rightarrow> bool" where
  "is_solvable state = (count_inversions (flat_state state) mod 2 = 0)"

subsection \<open>shuffle_puzzle, on values\<close>

text \<open>\<^verbatim>\<open>random.choice\<close> with the generator's draw \<open>k\<close> as a parameter: every element of a
  non-empty sequence is \<open>choice k\<close> of it for some \<open>k\<close>; the empty sequence raises
  \<^verbatim>\<open>IndexError\<close>.\<close>

definition choice :: "nat \<Rightarrow> 'a list \<Rightarrow> py_error + 'a" where
  "choice k xs = (if xs = [] then Inl IndexError else Inr (xs ! (k mod length xs)))"

text \<open>The loop of \<^verbatim>\<open>shuffle_puzzle\<close> over the iterations \<open>is\<close>; iteration \<open>i\<close> draws
  \<open>rnd i\<close>.\<close>

fun shuffle_steps :: "(nat \<Rightarrow> nat) \<Rightarrow> nat list \<Rightarrow> grid \<Rightarrow> py_error + grid" where
  "shuffle_steps rnd [] state = Inr state"
| "shuffle_steps rnd (i # is) state =
     bind_err (get_neighbors state) (\<lambda>neighbors.
     bind_err (choice (rnd i) neighbors) (\<lambda>chosen.
       shuffle_steps rnd is chosen))"

definition shuffle_puzzle :: "grid \<Rightarrow> int \<Rightarrow> (nat \<Rightarrow> nat) \<Rightarrow> py_error + grid" where
  "shuffle_puzzle state moves rnd = shuffle_steps rnd [0..<nat moves] state"

subsection \<open>reconstruct_path\<close>

partial_function (option) reconstruct_loop :: "('a \<rightharpoonup> 'a) \<Rightarrow> 'a \<Rightarrow> 'a list \<Rightarrow> 'a list option" where
  "reconstruct_loop came_from current path =
     (case came_from current of
        None \<Rightarrow> Some path
      | Some previous \<Rightarrow> reconstruct_loop came_from previous (path @ [current]))"

definition reconstruct_path :: "('a \<rightharpoonup> 'a) \<Rightarrow> 'a \<Rightarrow> 'a list option" where
  "reconstruct_path came_from current = map_option rev (reconstruct_loop came_from current [])"

subsection \<open>bfs\<close>

text \<open>A search returns \<open>Some (Inr (Some path))\<close>, \<open>Some (Inr None)\<close> for Python's
  \<^verbatim>\<open>None\<close>, \<open>Some (Inl e)\<close> when \<open>e\<close> is raised, and \<open>None\<close> when it never returns.
  The tuple of tuples made from a grid has the grid's value and is written as the grid.\<close>

type_synonym search_result = "(py_error + grid list option) option"

fun bfs_expand :: "grid \<Rightarrow> grid list \<Rightarrow> grid list \<times> grid set \<times> (grid \<rightharpoonup> grid)
    \<Rightarrow> grid list \<times> grid set \<times> (grid \<rightharpoonup> grid)" where
  "bfs_expand current [] s = s"
| "bfs_expand current (neighbor # rest) (queue, visited, came_from) =
     (if neighbor \<notin> visited
      then bfs_expand current rest
             (queue @ [neighbor], insert neighbor visited, came_from(neighbor \<mapsto> current))
      else bfs_expand current rest (queue, visited, came_from))"

partial_function (option) bfs_loop :: "grid \<Rightarrow> grid list \<Rightarrow> grid set \<Rightarrow> (grid \<rightharpoonup> grid) \<Rightarrow> search_result" where
  "bfs_loop goal queue visited came_from =
     (case queue of
        [] \<Rightarrow> Some (Inr None)
      | current # queue' \<Rightarrow>
          if current = goal
          then map_option (\<lambda>path. Inr (Some path)) (reconstruct_path came_from current)
          else (case get_neighbors current of
                  Inl e \<Rightarrow> Some (Inl e)
                | Inr neighbors \<Rightarrow>
                    (case bfs_expand current neighbors (queue', visited, came_from) of
                       (queue'', visited', came_from') \<Rightarrow>
                         bfs_loop goal queue'' visited' came_from')))"

definition bfs :: "grid \<Rightarrow> grid \<Rightarrow> search_result" where
  "bfs start goal = bfs_loop goal [start] {start} Map.empty"

subsection \<open>dfs\<close>

text \<open>The stack is a list with its top at the head. The \<^verbatim>\<open>for\<close> loop pushes the
  neighbours that are not visited, last neighbour first.\<close>

type_synonym dfs_entry = "grid \<times> grid list \<times> int"

definition dfs_push :: "grid \<Rightarrow> grid list \<Rightarrow> int \<Rightarrow> grid set \<Rightarrow> grid list \<Rightarrow> dfs_entry list \<Rightarrow> dfs_entry list" where
  "dfs_push current path depth visited neighbors stack =
     fold (\<lambda>neighbor stack.
       if neighbor \<notin> visited then (neighbor, path @ [current], depth + 1) # stack else stack)
       (rev neighbors) stack"

partial_function (option) dfs_loop :: "grid \<Rightarrow> int \<Rightarrow> dfs_entry list \<Rightarrow> grid set \<Rightarrow> search_result" where
  "dfs_loop goal depth_limit stack visited =
     (case stack of
        [] \<Rightarrow> Some (Inr None)
      | (current, path, depth) # stack' \<Rightarrow>
          if depth > depth_limit then dfs_loop goal depth_limit stack' visited
          else if current \<in> visited then dfs_loop goal depth_limit stack' visited
          else if current = goal then Some (Inr (Some (path @ [current])))
          else (case get_neighbors current of
                  Inl e \<Rightarrow> Some (Inl e)
                | Inr neighbors \<Rightarrow>
                    dfs_loop goal depth_limit
                      (dfs_push current path depth (insert current visited) neighbors stack')
                      (insert current visited)))"

definition dfs :: "grid \<Rightarrow> grid \<Rightarrow> int \<Rightarrow> search_result" where
  "dfs start goal depth_limit = dfs_loop goal depth_limit [(start, [], 0)] {}"

subsection \<open>ucs\<close>

text \<open>\<^verbatim>\<open>heapq\<close> keeps a binary heap of \<^verbatim>\<open>(cost, grid)\<close> pairs under Python's
  lexicographic order on tuples and lists, which is total here; \<^verbatim>\<open>heappop\<close> removes a
  least pair, and equal pairs have equal values. The queue is kept as the sorted list of
  its pairs: \<open>heappush\<close> inserts in order, \<open>heappop\<close> takes the head.\<close>

definition heappush :: "(int \<times> grid) list \<Rightarrow> int \<times> grid \<Rightarrow> (int \<times> grid) list" where
  "heappush heap item = insort item heap"

fun ucs_expand :: "grid \<Rightarrow> int \<Rightarrow> grid list
    \<Rightarrow> (int \<times> grid) list \<times> (grid \<rightharpoonup> grid) \<times> (grid \<rightharpoonup> int)
    \<Rightarrow> (int \<times> grid) list \<times> (grid \<rightharpoonup> grid) \<times> (grid \<rightharpoonup> int)" where
  "ucs_expand current current_cost [] s = s"
| "ucs_expand current current_cost (neighbor # rest) (priority_queue, came_from, cost_so_far) =
     (let new_cost = current_cost + 1 in
      if (case cost_so_far neighbor of None \<Rightarrow> True | Some c \<Rightarrow> new_cost < c)
      then ucs_expand current current_cost rest
             (heappush priority_queue (new_cost, neighbor),
              came_from(neighbor \<mapsto> current),
              cost_so_far(neighbor \<mapsto> new_cost))
      else ucs_expand current current_cost rest (priority_queue, came_from, cost_so_far))"

partial_function (option) ucs_loop :: "grid \<Rightarrow> (int \<times> grid) list \<Rightarrow> grid set \<Rightarrow> (grid \<rightharpoonup> grid)
    \<Rightarrow> (grid \<rightharpoonup> int) \<Rightarrow> search_result" where
  "ucs_loop goal priority_queue visited came_from cost_so_far =
     (case priority_queue of
        [] \<Rightarrow> Some (Inr None)
      | (current_cost, current) # priority_queue' \<Rightarrow>
          if current = goal
          then map_option (\<lambda>path. Inr (Some path)) (reconstruct_path came_from current)
          else if current \<in> visited
          then ucs_loop goal priority_queue' visited came_from cost_so_far
          else (case get_neighbors current of
                  Inl e \<Rightarrow> Some (Inl e)
                | Inr neighbors \<Rightarrow>
                    (case ucs_expand current current_cost neighbors
                            (priority_queue', came_from, cost_so_far) of
                       (priority_queue'', came_from', cost_so_far') \<Rightarrow>
                         ucs_loop goal priority_queue'' (insert current visited)
                           came_from' cost_so_far')))"

definition ucs :: "grid \<Rightarrow> grid \<Rightarrow> search_result" where
  "ucs start goal = ucs_loop goal (heappush [] (0, start)) {} Map.empty [start \<mapsto> 0]"

subsection \<open>get_neighbors and shuffle_puzzle on references\<close>

text \<open>
  \<^verbatim>\<open>get_neighbors\<close> builds new lists and \<^verbatim>\<open>shuffle_puzzle\<close> assigns to a slice of its
  argument, so what they do to the caller's objects is stated over a store of list objects.
  A grid object holds references to row objects, a row object holds the cells;
  \<open>next_row\<close> and \<open>next_grid\<close> are the first references not yet given out.
  \<open>load_grid\<close> reads the value of a grid object.
\<close>

type_synonym addr = nat

record heap =
  row_cells :: "addr \<Rightarrow> int list"
  grid_rows :: "addr \<Rightarrow> addr list"
  next_row :: addr
  next_grid :: addr

definition load_grid :: "heap \<Rightarrow> addr \<Rightarrow> grid" where
  "load_grid h a = map (row_cells h) (grid_rows h a)"

text \<open>\<^verbatim>\<open>row[:]\<close> makes a new row object, the list comprehension a new grid object.\<close>

definition alloc_row :: "heap \<Rightarrow> int list \<Rightarrow> heap \<times> addr" where
  "alloc_row h cells =
     (h\<lparr>row_cells := (row_cells h)(next_row h := cells), next_row := Suc (next_row h)\<rparr>, next_row h)"

definition alloc_grid :: "heap \<Rightarrow> addr list \<Rightarrow> heap \<times> addr" where
  "alloc_grid h rows =
     (h\<lparr>grid_rows := (grid_rows h)(next_grid h := rows), next_grid := Suc (next_grid h)\<rparr>, next_grid h)"

fun copy_rows :: "heap \<Rightarrow> addr list \<Rightarrow> heap \<times> addr list" where
  "copy_rows h [] = (h, [])"
| "copy_rows h (row # rows) =
     (case alloc_row h (row_cells h row) of (h1, row') \<Rightarrow>
      case copy_rows h1 rows of (h2, rows') \<Rightarrow> (h2, row' # rows'))"

definition copy_grid :: "heap \<Rightarrow> addr \<Rightarrow> heap \<times> addr" where
  "copy_grid h state = (case copy_rows h (grid_rows h state) of (h1, rows) \<Rightarrow> alloc_grid h1 rows)"

text \<open>\<^verbatim>\<open>new_state[r][c]\<close> and \<^verbatim>\<open>new_state[r][c] = v\<close>: the assignment changes the row
  object that the grid refers to.\<close>

definition getcell :: "heap \<Rightarrow> addr \<Rightarrow> int \<Rightarrow> int \<Rightarrow> py_error + int" where
  "getcell h state r c =
     bind_err (getitem (grid_rows h state) r) (\<lambda>row. getitem (row_cells h row) c)"

definition setcell :: "heap \<Rightarrow> addr \<Rightarrow> int \<Rightarrow> int \<Rightarrow> int \<Rightarrow> py_error + heap" where
  "setcell h state r c v =
     bind_err (getitem (grid_rows h state) r) (\<lambda>row.
     bind_err (setitem (row_cells h row) c v) (\<lambda>cells.
       Inr (h\<lparr>row_cells := (row_cells h)(row := cells)\<rparr>)))"

definition slide_h :: "heap \<Rightarrow> addr \<Rightarrow> pos \<Rightarrow> pos \<Rightarrow> py_error + heap \<times> addr" where
  "slide_h h state zero_pos new_pos =
     (case copy_grid h state of (h1, new_state) \<Rightarrow>
        bind_err (getcell h1 new_state (fst new_pos) (snd new_pos)) (\<lambda>v.
        bind_err (setcell h1 new_state (fst zero_pos) (snd zero_pos) v) (\<lambda>h2.
        bind_err (setcell h2 new_state (fst new_pos) (snd new_pos) 0) (\<lambda>h3.
          Inr (h3, new_state)))))"

fun neighbors_loop_h :: "heap \<Rightarrow> addr \<Rightarrow> pos option \<Rightarrow> (int \<times> int) list \<Rightarrow> addr list
    \<Rightarrow> py_error + heap \<times> addr list" where
  "neighbors_loop_h h state zero_pos [] neighbors = Inr (h, neighbors)"
| "neighbors_loop_h h state zero_pos ((dr, dc) # ds) neighbors =
     (case zero_pos of
        None \<Rightarrow> Inl TypeError
      | Some (zr, zc) \<Rightarrow>
          (let new_row = zr + dr; new_col = zc + dc in
           if 0 \<le> new_row \<and> new_row < GRID_SIZE \<and> 0 \<le> new_col \<and> new_col < GRID_SIZE
           then bind_err (slide_h h state (zr, zc) (new_row, new_col)) (\<lambda>(h', new_state).
                  neighbors_loop_h h' state zero_pos ds (neighbors @ [new_state]))
           else neighbors_loop_h h state zero_pos ds neighbors))"

definition get_neighbors_h :: "heap \<Rightarrow> addr \<Rightarrow> py_error + heap \<times> addr list" where
  "get_neighbors_h h state =
     bind_err (find_zero (load_grid h state)) (\<lambda>zero_pos.
       neighbors_loop_h h state zero_pos directions [])"

text \<open>\<^verbatim>\<open>state[:] = random.choice(neighbors)\<close> replaces the items of the object \<^verbatim>\<open>state\<close> by
  the row references of the chosen neighbour; \<^verbatim>\<open>return state\<close> returns the argument's
  reference.\<close>

fun shuffle_steps_h :: "(nat \<Rightarrow> nat) \<Rightarrow> nat list \<Rightarrow> heap \<Rightarrow> addr \<Rightarrow> py_error + heap" where
  "shuffle_steps_h rnd [] h state = Inr h"
| "shuffle_steps_h rnd (i # is) h state =
     bind_err (get_neighbors_h h state) (\<lambda>(h1, neighbors).
     bind_err (choice (rnd i) neighbors) (\<lambda>chosen.
       shuffle_steps_h rnd is (h1\<lparr>grid_rows := (grid_rows h1)(state := grid_rows h1 chosen)\<rparr>) state))"

definition shuffle_puzzle_h :: "heap \<Rightarrow> addr \<Rightarrow> int \<Rightarrow> (nat \<Rightarrow> nat) \<Rightarrow> py_error + heap \<times> addr" where
  "shuffle_puzzle_h h state moves rnd =
     bind_err (shuffle_steps_h rnd [0..<nat moves] h state) (\<lambda>h'. Inr (h', state))"

text \<open>The module's objects after line 40 of the source: \<^verbatim>\<open>goal_state\<close> and its copy
  \<^verbatim>\<open>initial_state\<close>.\<close>

definition module_heap :: heap where
  "module_heap =
     \<lparr>row_cells = (\<lambda>_. [])(0 := [1, 2, 3], 1 := [4, 5, 6], 2 := [7, 8, 0],
                            3 := [1, 2, 3], 4 := [4, 5, 6], 5 := [7, 8, 0]),
      grid_rows = (\<lambda>_. [])(0 := [0, 1, 2], 1 := [3, 4, 5]),
      next_row = 6, next_grid = 2\<rparr>"

definition goal_state_ref :: addr where "goal_state_ref = 0"

definition initial_state_ref :: addr where "initial_state_ref = 1"

subsection \<open>Notions used to state the properties\<close>

text \<open>A store is well formed when the rows of every grid object given out are row
  objects given out; \<open>heap_extends h h'\<close> says that \<open>h'\<close> has every object of \<open>h\<close>
  unchanged.\<close>

definition wf_heap :: "heap \<Rightarrow> bool" where
  "wf_heap h = (\<forall>a < next_grid h. \<forall>r \<in> set (grid_rows h a). r < next_row h)"

definition heap_extends :: "heap \<Rightarrow> heap \<Rightarrow> bool" where
  "heap_extends h h' =
     (next_row h \<le> next_row h' \<and> next_grid h \<le> next_grid h' \<and>
      (\<forall>r < next_row h. row_cells h' r = row_cells h r) \<and>
      (\<forall>a < next_grid h. grid_rows h' a = grid_rows h a))"

text \<open>A valid grid is a 3x3 arrangement of the values 0 to 8, each once.\<close>

definition is_3x3 :: "grid \<Rightarrow> bool" where
  "is_3x3 state = (length state = 3 \<and> (\<forall>row \<in> set state. length row = 3))"

definition valid_grid :: "grid \<Rightarrow> bool" where
  "valid_grid state = (is_3x3 state \<and> distinct (concat state) \<and> set (concat state) = {0..8})"

text \<open>The number of pairs \<open>i < j\<close> with \<open>xs ! i > xs ! j\<close>, by recursion on the list.\<close>

fun inv_pairs :: "int list \<Rightarrow> nat" where
  "inv_pairs [] = 0"
| "inv_pairs (x # xs) = length (filter (\<lambda>y. x > y) xs) + inv_pairs xs"

text \<open>\<open>links came_from start path\<close>: the first grid of \<open>path\<close> has predecessor \<open>start\<close>,
  and every later one has the grid before it as predecessor.\<close>

fun links :: "('a \<rightharpoonup> 'a) \<Rightarrow> 'a \<Rightarrow> 'a list \<Rightarrow> bool" where
  "links came_from start [] = True"
| "links came_from start (x # xs) = (came_from x = Some start \<and> links came_from x xs)"

text \<open>The slide of the specification: \<open>swap_cells g p q\<close> is \<open>g\<close> with the cells at \<open>p\<close>
  and \<open>q\<close> exchanged; \<open>blank_moves z\<close> lists the cells above, below, left of and right of
  \<open>z\<close> that lie in the grid, in this order; \<open>neighbor_count z\<close> is 2 in a corner, 4 in the
  centre and 3 on an edge.\<close>

definition in_grid :: "pos \<Rightarrow> bool" where
  "in_grid p = (0 \<le> fst p \<and> fst p < 3 \<and> 0 \<le> snd p \<and> snd p < 3)"

definition cell :: "grid \<Rightarrow> pos \<Rightarrow> int" where
  "cell g p = g ! nat (fst p) ! nat (snd p)"

definition swap_cells :: "grid \<Rightarrow> pos \<Rightarrow> pos \<Rightarrow> grid" where
  "swap_cells g p q =
     map (\<lambda>r. map (\<lambda>c. if (r, c) = p then cell g q else if (r, c) = q then cell g p else cell g (r, c))
       [0, 1, 2]) [0, 1, 2]"

definition blank_moves :: "pos \<Rightarrow> pos list" where
  "blank_moves z =
     filter in_grid [(fst z - 1, snd z), (fst z + 1, snd z), (fst z, snd z - 1), (fst z, snd z + 1)]"

definition neighbor_count :: "pos \<Rightarrow> nat" where
  "neighbor_count z =
     (if (fst z = 0 \<or> fst z = 2) \<and> (snd z = 0 \<or> snd z = 2) then 2
      else if fst z = 1 \<and> snd z = 1 then 4 else 3)"

text \<open>A path in the sense of the specification: a non-empty list of grids from \<open>start\<close>
  to \<open>goal\<close>, each a neighbour of the one before.\<close>

definition is_neighbor :: "grid \<Rightarrow> grid \<Rightarrow> bool" where
  "is_neighbor g n = (case get_neighbors g of Inl e \<Rightarrow> False | Inr ns \<Rightarrow> n \<in> set ns)"

fun slide_chain :: "grid list \<Rightarrow> bool" where
  "slide_chain [] = True"
| "slide_chain [g] = True"
| "slide_chain (g # n # rest) = (is_neighbor g n \<and> slide_chain (n # rest))"

definition solution_path :: "grid \<Rightarrow> grid \<Rightarrow> grid list \<Rightarrow> bool" where
  "solution_path start goal path =
     (path \<noteq> [] \<and> hd path = start \<and> last path = goal \<and> slide_chain path)"

text \<open>\<open>tree_from start cf\<close>: every entry of the predecessor map \<open>cf\<close> goes from a grid to
  one it is a neighbour of, which is \<open>start\<close> or has an entry itself.\<close>

definition tree_from :: "grid \<Rightarrow> (grid \<rightharpoonup> grid) \<Rightarrow> bool" where
  "tree_from start cf =
     (\<forall>g g'. cf g = Some g' \<longrightarrow> is_neighbor g' g \<and> (g' = start \<or> cf g' \<noteq> None))"

text \<open>Grids one and two slides away from the goal, a constant draw for
  \<^verbatim>\<open>random.choice\<close>, and what a caller sees of a returned reference.\<close>

definition one_slide_start :: grid where
  "one_slide_start = [[1, 2, 3], [4, 5, 6], [7, 0, 8]]"

definition two_slide_start :: grid where
  "two_slide_start = [[1, 2, 3], [4, 0, 6], [7, 5, 8]]"

definition left_start :: grid where
  "left_start = [[1, 2, 3], [4, 5, 6], [0, 7, 8]]"

definition first_choice :: "nat \<Rightarrow> nat" where
  "first_choice i = 0"

definition returned_grid :: "py_error + heap \<times> addr \<Rightarrow> py_error + addr \<times> grid" where
  "returned_grid res = (case res of Inl e \<Rightarrow> Inl e | Inr (h', r) \<Rightarrow> Inr (r, load_grid h' r))"

section \<open>Auxiliary facts\<close>

subsection \<open>The model on explicit 3x3 grids\<close>

lemma py_range_GRID_SIZE: "py_range GRID_SIZE = [0, 1, 2]"
  by (simp add: py_range_def GRID_SIZE_def upt_rec)

lemma find_zero_3x3:
  "find_zero [[a, b, c], [d, e, f], [g, h, i]] =
     Inr (if a = 0 then Some (0, 0) else if b = 0 then Some (0, 1) else if c = 0 then Some (0, 2)
          else if d = 0 then Some (1, 0) else if e = 0 then Some (1, 1) else if f = 0 then Some (1, 2)
          else if g = 0 then Some (2, 0) else if h = 0 then Some (2, 1) else if i = 0 then Some (2, 2)
          else None)"
  by (simp add: find_zero_def py_range_GRID_SIZE bind_err_def getitem_def py_index_def)

lemmas nb_simps = get_neighbors_def find_zero_3x3 bind_err_def directions_def GRID_SIZE_def
  slide_def grid_get_def grid_set_def getitem_def setitem_def py_index_def

lemma is_3x3_cells:
  assumes "is_3x3 s"
  obtains a b c d e f g h i where "s = [[a, b, c], [d, e, f], [g, h, i]]"
proof -
  from assms obtain r0 r1 r2 where s: "s = [r0, r1, r2]"
    by (auto simp: is_3x3_def numeral_3_eq_3 length_Suc_conv)
  from assms s have "length r0 = 3" "length r1 = 3" "length r2 = 3"
    by (simp_all add: is_3x3_def)
  then obtain a b c d e f g h i where "r0 = [a, b, c]" "r1 = [d, e, f]" "r2 = [g, h, i]"
    by (auto simp: numeral_3_eq_3 length_Suc_conv)
  with s that show thesis by blast
qed

lemma get_neighbors_00:
  "get_neighbors [[0, b, c], [d, e, f], [g, h, i]] =
     Inr [[[d, b, c], [0, e, f], [g, h, i]],
          [[b, 0, c], [d, e, f], [g, h, i]]]"
  by (simp add: nb_simps)

lemma get_neighbors_01:
  "a \<noteq> 0 \<Longrightarrow> get_neighbors [[a, 0, c], [d, e, f], [g, h, i]] =
     Inr [[[a, e, c], [d, 0, f], [g, h, i]],
          [[0, a, c], [d, e, f], [g, h, i]],
          [[a, c, 0], [d, e, f], [g, h, i]]]"
  by (simp add: nb_simps)

lemma get_neighbors_02:
  "a \<noteq> 0 \<Longrightarrow> b \<noteq> 0 \<Longrightarrow> get_neighbors [[a, b, 0], [d, e, f], [g, h, i]] =
     Inr [[[a, b, f], [d, e, 0], [g, h, i]],
          [[a, 0, b], [d, e, f], [g, h, i]]]"
  by (simp add: nb_simps)

lemma get_neighbors_10:
  "a \<noteq> 0 \<Longrightarrow> b \<noteq> 0 \<Longrightarrow> c \<noteq> 0 \<Longrightarrow> get_neighbors [[a, b, c], [0, e, f], [g, h, i]] =
     Inr [[[0, b, c], [a, e, f], [g, h, i]],
          [[a, b, c], [g, e, f], [0, h, i]],
          [[a, b, c], [e, 0, f], [g, h, i]]]"
  by (simp add: nb_simps)

lemma get_neighbors_11:
  "a \<noteq> 0 \<Longrightarrow> b \<noteq> 0 \<Longrightarrow> c \<noteq> 0 \<Longrightarrow> d \<noteq> 0 \<Longrightarrow> get_neighbors [[a, b, c], [d, 0, f], [g, h, i]] =
     Inr [[[a, 0, c], [d, b, f], [g, h, i]],
          [[a, b, c], [d, h, f], [g, 0, i]],
          [[a, b, c], [0, d, f], [g, h, i]],
          [[a, b, c], [d, f, 0], [g, h, i]]]"
  by (simp add: nb_simps)

lemma get_neighbors_12:
  "a \<noteq> 0 \<Longrightarrow> b \<noteq> 0 \<Longrightarrow> c \<noteq> 0 \<Longrightarrow> d \<noteq> 0 \<Longrightarrow> e \<noteq> 0 \<Longrightarrow> get_neighbors [[a, b, c], [d, e, 0], [g, h, i]] =
     Inr [[[a, b, 0], [d, e, c], [g, h, i]],
          [[a, b, c], [d, e, i], [g, h, 0]],
          [[a, b, c], [d, 0, e], [g, h, i]]]"
  by (simp add: nb_simps)

lemma get_neighbors_20:
  "a \<noteq> 0 \<Longrightarrow> b \<noteq> 0 \<Longrightarrow> c \<noteq> 0 \<Longrightarrow> d \<noteq> 0 \<Longrightarrow> e \<noteq> 0 \<Longrightarrow> f \<noteq> 0 \<Longrightarrow> get_neighbors [[a, b, c], [d, e, f], [0, h, i]] =
     Inr [[[a, b, c], [0, e, f], [d, h, i]],
          [[a, b, c], [d, e, f], [h, 0, i]]]"
  by (simp add: nb_simps)

lemma get_neighbors_21:
  "a \<noteq> 0 \<Longrightarrow> b \<noteq> 0 \<Longrightarrow> c \<noteq> 0 \<Longrightarrow> d \<noteq> 0 \<Longrightarrow> e \<noteq> 0 \<Longrightarrow> f \<noteq> 0 \<Longrightarrow> g \<noteq> 0 \<Longrightarrow> get_neighbors [[a, b, c], [d, e, f], [g, 0, i]] =
     Inr [[[a, b, c], [d, 0, f], [g, e, i]],
          [[a, b, c], [d, e, f], [0, g, i]],
          [[a, b, c], [d, e, f], [g, i, 0]]]"
  by (simp add: nb_simps)

lemma get_neighbors_22:
  "a \<noteq> 0 \<Longrightarrow> b \<noteq> 0 \<Longrightarrow> c \<noteq> 0 \<Longrightarrow> d \<noteq> 0 \<Longrightarrow> e \<noteq> 0 \<Longrightarrow> f \<noteq> 0 \<Longrightarrow> g \<noteq> 0 \<Longrightarrow> h \<noteq> 0 \<Longrightarrow> get_neighbors [[a, b, c], [d, e, f], [g, h, 0]] =
     Inr [[[a, b, c], [d, e, 0], [g, h, f]],
          [[a, b, c], [d, e, f], [g, 0, h]]]"
  by (simp add: nb_simps)

lemma valid_grid_3x3:
  "valid_grid [[a, b, c], [d, e, f], [g, h, i]] \<longleftrightarrow>
     distinct [a, b, c, d, e, f, g, h, i] \<and> set [a, b, c, d, e, f, g, h, i] = {0..8}"
  by (simp add: valid_grid_def is_3x3_def)

lemma valid_grid_cases [consumes 1]:
  assumes "valid_grid s"
  obtains (blank_00) b c d e f g h i where "s = [[0, b, c], [d, e, f], [g, h, i]]"
      "distinct [0, b, c, d, e, f, g, h, i]" "set [0, b, c, d, e, f, g, h, i] = {0..8}"
  | (blank_01) a c d e f g h i where "s = [[a, 0, c], [d, e, f], [g, h, i]]"
      "distinct [a, 0, c, d, e, f, g, h, i]" "set [a, 0, c, d, e, f, g, h, i] = {0..8}"
  | (blank_02) a b d e f g h i where "s = [[a, b, 0], [d, e, f], [g, h, i]]"
      "distinct [a, b, 0, d, e, f, g, h, i]" "set [a, b, 0, d, e, f, g, h, i] = {0..8}"
  | (blank_10) a b c e f g h i where "s = [[a, b, c], [0, e, f], [g, h, i]]"
      "distinct [a, b, c, 0, e, f, g, h, i]" "set [a, b, c, 0, e, f, g, h, i] = {0..8}"
  | (blank_11) a b c d f g h i where "s = [[a, b, c], [d, 0, f], [g, h, i]]"
      "distinct [a, b, c, d, 0, f, g, h, i]" "set [a, b, c, d, 0, f, g, h, i] = {0..8}"
  | (blank_12) a b c d e g h i where "s = [[a, b, c], [d, e, 0], [g, h, i]]"
      "distinct [a, b, c, d, e, 0, g, h, i]" "set [a, b, c, d, e, 0, g, h, i] = {0..8}"
  | (blank_20) a b c d e f h i where "s = [[a, b, c], [d, e, f], [0, h, i]]"
      "distinct [a, b, c, d, e, f, 0, h, i]" "set [a, b, c, d, e, f, 0, h, i] = {0..8}"
  | (blank_21) a b c d e f g i where "s = [[a, b, c], [d, e, f], [g, 0, i]]"
      "distinct [a, b, c, d, e, f, g, 0, i]" "set [a, b, c, d, e, f, g, 0, i] = {0..8}"
  | (blank_22) a b c d e f g h where "s = [[a, b, c], [d, e, f], [g, h, 0]]"
      "distinct [a, b, c, d, e, f, g, h, 0]" "set [a, b, c, d, e, f, g, h, 0] = {0..8}"
proof -
  from assms have "is_3x3 s" by (simp add: valid_grid_def)
  then obtain a b c d e f g h i where s: "s = [[a, b, c], [d, e, f], [g, h, i]]"
    by (rule is_3x3_cells)
  from assms s have d: "distinct [a, b, c, d, e, f, g, h, i]"
    and st: "set [a, b, c, d, e, f, g, h, i] = {0..8}"
    by (simp_all add: valid_grid_def)
  have "(0::int) \<in> {0..8}" by simp
  with st have "0 \<in> set [a, b, c, d, e, f, g, h, i]" by simp
  then consider "a = 0" | "b = 0" | "c = 0" | "d = 0" | "e = 0" | "f = 0" | "g = 0" | "h = 0" | "i = 0"
    by auto
  then show thesis
  proof cases
    case 1 with s d st show thesis using blank_00 by blast
  next
    case 2 with s d st show thesis using blank_01 by blast
  next
    case 3 with s d st show thesis using blank_02 by blast
  next
    case 4 with s d st show thesis using blank_10 by blast
  next
    case 5 with s d st show thesis using blank_11 by blast
  next
    case 6 with s d st show thesis using blank_12 by blast
  next
    case 7 with s d st show thesis using blank_20 by blast
  next
    case 8 with s d st show thesis using blank_21 by blast
  next
    case 9 with s d st show thesis using blank_22 by blast
  qed
qed

lemma all_less_3: "(\<forall>n < 3. P n) \<longleftrightarrow> P 0 \<and> P 1 \<and> P (2::nat)"
  by (auto simp: less_Suc_eq numeral_3_eq_3 numeral_2_eq_2)

subsection \<open>Counting inversions\<close>

text \<open>The loops of \<^verbatim>\<open>is_solvable\<close> count the inverted pairs.\<close>

lemma inner_loop_count:
  "fold (\<lambda>j inversions. if xs ! i > xs ! j then inversions + 1 else inversions) [k..<length xs] acc
     = acc + length (filter (\<lambda>y. xs ! i > y) (drop k xs))"
proof (induction "length xs - k" arbitrary: k acc)
  case 0
  then show ?case by simp
next
  case (Suc n)
  then have k: "k < length xs" by simp
  from Suc(2) have n: "n = length xs - Suc k" by simp
  show ?case
    using Suc(1)[OF n] k
    by (simp add: upt_conv_Cons[OF k] Cons_nth_drop_Suc[OF k, symmetric])
qed

lemma outer_loop_count:
  "fold (\<lambda>i inversions. inversions + length (filter (\<lambda>y. xs ! i > y) (drop (i + 1) xs))) [k..<length xs] acc
     = acc + inv_pairs (drop k xs)"
proof (induction "length xs - k" arbitrary: k acc)
  case 0
  then show ?case by simp
next
  case (Suc n)
  then have k: "k < length xs" by simp
  from Suc(2) have n: "n = length xs - Suc k" by simp
  show ?case
    using Suc(1)[OF n] k
    by (simp add: upt_conv_Cons[OF k] Cons_nth_drop_Suc[OF k, symmetric])
qed

lemma count_inversions_eq: "count_inversions xs = inv_pairs xs"
  using outer_loop_count[of xs 0 0]
  by (simp add: count_inversions_def inner_loop_count)

text \<open>Moving a tile past two others that differ from it keeps the parity of the count: this
  is what a vertical slide does to the row-major list of tiles. A horizontal slide leaves
  the list as it is.\<close>

lemma inv_pairs_jump:
  assumes "x \<noteq> p" "x \<noteq> q"
  shows "even (inv_pairs (xs @ x # p # q # ys)) = even (inv_pairs (xs @ p # q # x # ys))"
proof (induction xs)
  case Nil
  from assms show ?case by auto
next
  case (Cons a xs)
  then show ?case by simp
qed

lemma solvable_jump:
  "x \<noteq> p \<Longrightarrow> x \<noteq> q \<Longrightarrow>
   (inv_pairs (xs @ x # p # q # ys) mod 2 = 0) = (inv_pairs (xs @ p # q # x # ys) mod 2 = 0)"
  using inv_pairs_jump[of x p q xs ys] by (simp add: even_iff_mod_2_eq_zero)

lemma solvable_horizontal:
  "flat_state n = flat_state s \<Longrightarrow> is_solvable n = is_solvable s"
  by (simp add: is_solvable_def)

lemma solvable_vertical_0:
  assumes "b \<noteq> 0" "c \<noteq> 0" "d \<noteq> 0" "e \<noteq> 0" "f \<noteq> 0" "g \<noteq> 0" "h \<noteq> 0" "i \<noteq> 0" "d \<noteq> b" "d \<noteq> c"
  shows "is_solvable [[0, b, c], [d, e, f], [g, h, i]] =
         is_solvable [[d, b, c], [0, e, f], [g, h, i]]"
  using assms solvable_jump[of d b c "[]" "[e, f, g, h, i]"]
  by (simp add: is_solvable_def flat_state_def count_inversions_eq del: inv_pairs.simps)

lemma solvable_vertical_1:
  assumes "a \<noteq> 0" "c \<noteq> 0" "d \<noteq> 0" "e \<noteq> 0" "f \<noteq> 0" "g \<noteq> 0" "h \<noteq> 0" "i \<noteq> 0" "e \<noteq> c" "e \<noteq> d"
  shows "is_solvable [[a, 0, c], [d, e, f], [g, h, i]] =
         is_solvable [[a, e, c], [d, 0, f], [g, h, i]]"
  using assms solvable_jump[of e c d "[a]" "[f, g, h, i]"]
  by (simp add: is_solvable_def flat_state_def count_inversions_eq del: inv_pairs.simps)

lemma solvable_vertical_2:
  assumes "a \<noteq> 0" "b \<noteq> 0" "d \<noteq> 0" "e \<noteq> 0" "f \<noteq> 0" "g \<noteq> 0" "h \<noteq> 0" "i \<noteq> 0" "f \<noteq> d" "f \<noteq> e"
  shows "is_solvable [[a, b, 0], [d, e, f], [g, h, i]] =
         is_solvable [[a, b, f], [d, e, 0], [g, h, i]]"
  using assms solvable_jump[of f d e "[a, b]" "[g, h, i]"]
  by (simp add: is_solvable_def flat_state_def count_inversions_eq del: inv_pairs.simps)

lemma solvable_vertical_3:
  assumes "a \<noteq> 0" "b \<noteq> 0" "c \<noteq> 0" "e \<noteq> 0" "f \<noteq> 0" "g \<noteq> 0" "h \<noteq> 0" "i \<noteq> 0" "g \<noteq> e" "g \<noteq> f"
  shows "is_solvable [[a, b, c], [0, e, f], [g, h, i]] =
         is_solvable [[a, b, c], [g, e, f], [0, h, i]]"
  using assms solvable_jump[of g e f "[a, b, c]" "[h, i]"]
  by (simp add: is_solvable_def flat_state_def count_inversions_eq del: inv_pairs.simps)

lemma solvable_vertical_4:
  assumes "a \<noteq> 0" "b \<noteq> 0" "c \<noteq> 0" "d \<noteq> 0" "f \<noteq> 0" "g \<noteq> 0" "h \<noteq> 0" "i \<noteq> 0" "h \<noteq> f" "h \<noteq> g"
  shows "is_solvable [[a, b, c], [d, 0, f], [g, h, i]] =
         is_solvable [[a, b, c], [d, h, f], [g, 0, i]]"
  using assms solvable_jump[of h f g "[a, b, c, d]" "[i]"]
  by (simp add: is_solvable_def flat_state_def count_inversions_eq del: inv_pairs.simps)

lemma solvable_vertical_5:
  assumes "a \<noteq> 0" "b \<noteq> 0" "c \<noteq> 0" "d \<noteq> 0" "e \<noteq> 0" "g \<noteq> 0" "h \<noteq> 0" "i \<noteq> 0" "i \<noteq> g" "i \<noteq> h"
  shows "is_solvable [[a, b, c], [d, e, 0], [g, h, i]] =
         is_solvable [[a, b, c], [d, e, i], [g, h, 0]]"
  using assms solvable_jump[of i g h "[a, b, c, d, e]" "[]"]
  by (simp add: is_solvable_def flat_state_def count_inversions_eq del: inv_pairs.simps)

subsection \<open>Neighbours of a valid grid\<close>

lemma valid_neighbors:
  assumes "valid_grid s"
  shows "\<exists>ns. get_neighbors s = Inr ns \<and> ns \<noteq> [] \<and>
           (\<forall>n \<in> set ns. valid_grid n \<and> is_solvable n = is_solvable s)"
  using assms
proof (cases rule: valid_grid_cases)
  case (blank_00 b c d e f g h i)
  note s = blank_00(1) and d = blank_00(2) and st = blank_00(3)
  have v: "valid_grid [[d, b, c], [0, e, f], [g, h, i]]"
    "valid_grid [[b, 0, c], [d, e, f], [g, h, i]]"
    using d st by (auto simp: valid_grid_3x3)
  have p0: "is_solvable [[d, b, c], [0, e, f], [g, h, i]] =
      is_solvable [[0, b, c], [d, e, f], [g, h, i]]"
    by (rule solvable_vertical_0[symmetric]) (use d in auto)
  have p1: "is_solvable [[b, 0, c], [d, e, f], [g, h, i]] =
      is_solvable [[0, b, c], [d, e, f], [g, h, i]]"
    by (rule solvable_horizontal) (use d in \<open>auto simp: flat_state_def\<close>)
  show ?thesis
    by (simp add: s get_neighbors_00 v p0 p1)
next
  case (blank_01 a c d e f g h i)
  note s = blank_01(1) and d = blank_01(2) and st = blank_01(3)
  have v: "valid_grid [[a, e, c], [d, 0, f], [g, h, i]]"
    "valid_grid [[0, a, c], [d, e, f], [g, h, i]]"
    "valid_grid [[a, c, 0], [d, e, f], [g, h, i]]"
    using d st by (auto simp: valid_grid_3x3)
  have p0: "is_solvable [[a, e, c], [d, 0, f], [g, h, i]] =
      is_solvable [[a, 0, c], [d, e, f], [g, h, i]]"
    by (rule solvable_vertical_1[symmetric]) (use d in auto)
  have p1: "is_solvable [[0, a, c], [d, e, f], [g, h, i]] =
      is_solvable [[a, 0, c], [d, e, f], [g, h, i]]"
    by (rule solvable_horizontal) (use d in \<open>auto simp: flat_state_def\<close>)
  have p2: "is_solvable [[a, c, 0], [d, e, f], [g, h, i]] =
      is_solvable [[a, 0, c], [d, e, f], [g, h, i]]"
    by (rule solvable_horizontal) (use d in \<open>auto simp: flat_state_def\<close>)
  from d have nz: "a \<noteq> 0" by auto
  show ?thesis
    by (simp add: s get_neighbors_01 nz v p0 p1 p2)
next
  case (blank_02 a b d e f g h i)
  note s = blank_02(1) and d = blank_02(2) and st = blank_02(3)
  have v: "valid_grid [[a, b, f], [d, e, 0], [g, h, i]]"
    "valid_grid [[a, 0, b], [d, e, f], [g, h, i]]"
    using d st by (auto simp: valid_grid_3x3)
  have p0: "is_solvable [[a, b, f], [d, e, 0], [g, h, i]] =
      is_solvable [[a, b, 0], [d, e, f], [g, h, i]]"
    by (rule solvable_vertical_2[symmetric]) (use d in auto)
  have p1: "is_solvable [[a, 0, b], [d, e, f], [g, h, i]] =
      is_solvable [[a, b, 0], [d, e, f], [g, h, i]]"
    by (rule solvable_horizontal) (use d in \<open>auto simp: flat_state_def\<close>)
  from d have nz: "a \<noteq> 0" "b \<noteq> 0" by auto
  show ?thesis
    by (simp add: s get_neighbors_02 nz v p0 p1)
next
  case (blank_10 a b c e f g h i)
  note s = blank_10(1) and d = blank_10(2) and st = blank_10(3)
  have v: "valid_grid [[0, b, c], [a, e, f], [g, h, i]]"
    "valid_grid [[a, b, c], [g, e, f], [0, h, i]]"
    "valid_grid [[a, b, c], [e, 0, f], [g, h, i]]"
    using d st by (auto simp: valid_grid_3x3)
  have p0: "is_solvable [[0, b, c], [a, e, f], [g, h, i]] =
      is_solvable [[a, b, c], [0, e, f], [g, h, i]]"
    by (rule solvable_vertical_0) (use d in auto)
  have p1: "is_solvable [[a, b, c], [g, e, f], [0, h, i]] =
      is_solvable [[a, b, c], [0, e, f], [g, h, i]]"
    by (rule solvable_vertical_3[symmetric]) (use d in auto)
  have p2: "is_solvable [[a, b, c], [e, 0, f], [g, h, i]] =
      is_solvable [[a, b, c], [0, e, f], [g, h, i]]"
    by (rule solvable_horizontal) (use d in \<open>auto simp: flat_state_def\<close>)
  from d have nz: "a \<noteq> 0" "b \<noteq> 0" "c \<noteq> 0" by auto
  show ?thesis
    by (simp add: s get_neighbors_10 nz v p0 p1 p2)
next
  case (blank_11 a b c d f g h i)
  note s = blank_11(1) and d = blank_11(2) and st = blank_11(3)
  have v: "valid_grid [[a, 0, c], [d, b, f], [g, h, i]]"
    "valid_grid [[a, b, c], [d, h, f], [g, 0, i]]"
    "valid_grid [[a, b, c], [0, d, f], [g, h, i]]"
    "valid_grid [[a, b, c], [d, f, 0], [g, h, i]]"
    using d st by (auto simp: valid_grid_3x3)
  have p0: "is_solvable [[a, 0, c], [d, b, f], [g, h, i]] =
      is_solvable [[a, b, c], [d, 0, f], [g, h, i]]"
    by (rule solvable_vertical_1) (use d in auto)
  have p1: "is_solvable [[a, b, c], [d, h, f], [g, 0, i]] =
      is_solvable [[a, b, c], [d, 0, f], [g, h, i]]"
    by (rule solvable_vertical_4[symmetric]) (use d in auto)
  have p2: "is_solvable [[a, b, c], [0, d, f], [g, h, i]] =
      is_solvable [[a, b, c], [d, 0, f], [g, h, i]]"
    by (rule solvable_horizontal) (use d in \<open>auto simp: flat_state_def\<close>)
  have p3: "is_solvable [[a, b, c], [d, f, 0], [g, h, i]] =
      is_solvable [[a, b, c], [d, 0, f], [g, h, i]]"
    by (rule solvable_horizontal) (use d in \<open>auto simp: flat_state_def\<close>)
  from d have nz: "a \<noteq> 0" "b \<noteq> 0" "c \<noteq> 0" "d \<noteq> 0" by auto
  show ?thesis
    by (simp add: s get_neighbors_11 nz v p0 p1 p2 p3)
next
  case (blank_12 a b c d e g h i)
  note s = blank_12(1) and d = blank_12(2) and st = blank_12(3)
  have v: "valid_grid [[a, b, 0], [d, e, c], [g, h, i]]"
    "valid_grid [[a, b, c], [d, e, i], [g, h, 0]]"
    "valid_grid [[a, b, c], [d, 0, e], [g, h, i]]"
    using d st by (auto simp: valid_grid_3x3)
  have p0: "is_solvable [[a, b, 0], [d, e, c], [g, h, i]] =
      is_solvable [[a, b, c], [d, e, 0], [g, h, i]]"
    by (rule solvable_vertical_2) (use d in auto)
  have p1: "is_solvable [[a, b, c], [d, e, i], [g, h, 0]] =
      is_solvable [[a, b, c], [d, e, 0], [g, h, i]]"
    by (rule solvable_vertical_5[symmetric]) (use d in auto)
  have p2: "is_solvable [[a, b, c], [d, 0, e], [g, h, i]] =
      is_solvable [[a, b, c], [d, e, 0], [g, h, i]]"
    by (rule solvable_horizontal) (use d in \<open>auto simp: flat_state_def\<close>)
  from d have nz: "a \<noteq> 0" "b \<noteq> 0" "c \<noteq> 0" "d \<noteq> 0" "e \<noteq> 0" by auto
  show ?thesis
    by (simp add: s get_neighbors_12 nz v p0 p1 p2)
next
  case (blank_20 a b c d e f h i)
  note s = blank_20(1) and d = blank_20(2) and st = blank_20(3)
  have v: "valid_grid [[a, b, c], [0, e, f], [d, h, i]]"
    "valid_grid [[a, b, c], [d, e, f], [h, 0, i]]"
    using d st by (auto simp: valid_grid_3x3)
  have p0: "is_solvable [[a, b, c], [0, e, f], [d, h, i]] =
      is_solvable [[a, b, c], [d, e, f], [0, h, i]]"
    by (rule solvable_vertical_3) (use d in auto)
  have p1: "is_solvable [[a, b, c], [d, e, f], [h, 0, i]] =
      is_solvable [[a, b, c], [d, e, f], [0, h, i]]"
    by (rule solvable_horizontal) (use d in \<open>auto simp: flat_state_def\<close>)
  from d have nz: "a \<noteq> 0" "b \<noteq> 0" "c \<noteq> 0" "d \<noteq> 0" "e \<noteq> 0" "f \<noteq> 0" by auto
  show ?thesis
    by (simp add: s get_neighbors_20 nz v p0 p1)
next
  case (blank_21 a b c d e f g i)
  note s = blank_21(1) and d = blank_21(2) and st = blank_21(3)
  have v: "valid_grid [[a, b, c], [d, 0, f], [g, e, i]]"
    "valid_grid [[a, b, c], [d, e, f], [0, g, i]]"
    "valid_grid [[a, b, c], [d, e, f], [g, i, 0]]"
    using d st by (auto simp: valid_grid_3x3)
  have p0: "is_solvable [[a, b, c], [d, 0, f], [g, e, i]] =
      is_solvable [[a, b, c], [d, e, f], [g, 0, i]]"
    by (rule solvable_vertical_4) (use d in auto)
  have p1: "is_solvable [[a, b, c], [d, e, f], [0, g, i]] =
      is_solvable [[a, b, c], [d, e, f], [g, 0, i]]"
    by (rule solvable_horizontal) (use d in \<open>auto simp: flat_state_def\<close>)
  have p2: "is_solvable [[a, b, c], [d, e, f], [g, i, 0]] =
      is_solvable [[a, b, c], [d, e, f], [g, 0, i]]"
    by (rule solvable_horizontal) (use d in \<open>auto simp: flat_state_def\<close>)
  from d have nz: "a \<noteq> 0" "b \<noteq> 0" "c \<noteq> 0" "d \<noteq> 0" "e \<noteq> 0" "f \<noteq> 0" "g \<noteq> 0" by auto
  show ?thesis
    by (simp add: s get_neighbors_21 nz v p0 p1 p2)
next
  case (blank_22 a b c d e f g h)
  note s = blank_22(1) and d = blank_22(2) and st = blank_22(3)
  have v: "valid_grid [[a, b, c], [d, e, 0], [g, h, f]]"
    "valid_grid [[a, b, c], [d, e, f], [g, 0, h]]"
    using d st by (auto simp: valid_grid_3x3)
  have p0: "is_solvable [[a, b, c], [d, e, 0], [g, h, f]] =
      is_solvable [[a, b, c], [d, e, f], [g, h, 0]]"
    by (rule solvable_vertical_5) (use d in auto)
  have p1: "is_solvable [[a, b, c], [d, e, f], [g, 0, h]] =
      is_solvable [[a, b, c], [d, e, f], [g, h, 0]]"
    by (rule solvable_horizontal) (use d in \<open>auto simp: flat_state_def\<close>)
  from d have nz: "a \<noteq> 0" "b \<noteq> 0" "c \<noteq> 0" "d \<noteq> 0" "e \<noteq> 0" "f \<noteq> 0" "g \<noteq> 0" "h \<noteq> 0" by auto
  show ?thesis
    by (simp add: s get_neighbors_22 nz v p0 p1)
qed

lemmas spec_simps = cell_def swap_cells_def blank_moves_def neighbor_count_def in_grid_def

lemma get_neighbors_spec:
  assumes "valid_grid s"
  shows "\<exists>z. find_zero s = Inr (Some z) \<and> cell s z = 0 \<and>
           get_neighbors s = Inr (map (swap_cells s z) (blank_moves z)) \<and>
           length (blank_moves z) = neighbor_count z"
  using assms
proof (cases rule: valid_grid_cases)
  case (blank_00 b c d e f g h i)
  note s = blank_00(1) and d = blank_00(2)
  show ?thesis
    by (rule exI[of _ "(0, 0)"])
       (simp add: s find_zero_3x3 get_neighbors_00 spec_simps)
next
  case (blank_01 a c d e f g h i)
  note s = blank_01(1) and d = blank_01(2)
  from d have nz: "a \<noteq> 0" by auto
  show ?thesis
    by (rule exI[of _ "(0, 1)"])
       (simp add: s find_zero_3x3 get_neighbors_01 nz spec_simps)
next
  case (blank_02 a b d e f g h i)
  note s = blank_02(1) and d = blank_02(2)
  from d have nz: "a \<noteq> 0" "b \<noteq> 0" by auto
  show ?thesis
    by (rule exI[of _ "(0, 2)"])
       (simp add: s find_zero_3x3 get_neighbors_02 nz spec_simps)
next
  case (blank_10 a b c e f g h i)
  note s = blank_10(1) and d = blank_10(2)
  from d have nz: "a \<noteq> 0" "b \<noteq> 0" "c \<noteq> 0" by auto
  show ?thesis
    by (rule exI[of _ "(1, 0)"])
       (simp add: s find_zero_3x3 get_neighbors_10 nz spec_simps)
next
  case (blank_11 a b c d f g h i)
  note s = blank_11(1) and d = blank_11(2)
  from d have nz: "a \<noteq> 0" "b \<noteq> 0" "c \<noteq> 0" "d \<noteq> 0" by auto
  show ?thesis
    by (rule exI[of _ "(1, 1)"])
       (simp add: s find_zero_3x3 get_neighbors_11 nz spec_simps)
next
  case (blank_12 a b c d e g h i)
  note s = blank_12(1) and d = blank_12(2)
  from d have nz: "a \<noteq> 0" "b \<noteq> 0" "c \<noteq> 0" "d \<noteq> 0" "e \<noteq> 0" by auto
  show ?thesis
    by (rule exI[of _ "(1, 2)"])
       (simp add: s find_zero_3x3 get_neighbors_12 nz spec_simps)
next
  case (blank_20 a b c d e f h i)
  note s = blank_20(1) and d = blank_20(2)
  from d have nz: "a \<noteq> 0" "b \<noteq> 0" "c \<noteq> 0" "d \<noteq> 0" "e \<noteq> 0" "f \<noteq> 0" by auto
  show ?thesis
    by (rule exI[of _ "(2, 0)"])
       (simp add: s find_zero_3x3 get_neighbors_20 nz spec_simps)
next
  case (blank_21 a b c d e f g i)
  note s = blank_21(1) and d = blank_21(2)
  from d have nz: "a \<noteq> 0" "b \<noteq> 0" "c \<noteq> 0" "d \<noteq> 0" "e \<noteq> 0" "f \<noteq> 0" "g \<noteq> 0" by auto
  show ?thesis
    by (rule exI[of _ "(2, 1)"])
       (simp add: s find_zero_3x3 get_neighbors_21 nz spec_simps)
next
  case (blank_22 a b c d e f g h)
  note s = blank_22(1) and d = blank_22(2)
  from d have nz: "a \<noteq> 0" "b \<noteq> 0" "c \<noteq> 0" "d \<noteq> 0" "e \<noteq> 0" "f \<noteq> 0" "g \<noteq> 0" "h \<noteq> 0" by auto
  show ?thesis
    by (rule exI[of _ "(2, 2)"])
       (simp add: s find_zero_3x3 get_neighbors_22 nz spec_simps)
qed

lemma find_zero_first:
  assumes "is_3x3 s" "0 \<in> set (concat s)"
  shows "\<exists>r c. r < 3 \<and> c < 3 \<and> find_zero s = Inr (Some (int r, int c)) \<and> s ! r ! c = 0 \<and>
           (\<forall>r' < 3. \<forall>c' < 3. r' < r \<or> r' = r \<and> c' < c \<longrightarrow> s ! r' ! c' \<noteq> 0) \<and>
           (\<exists>ns. get_neighbors s = Inr ns)"
proof -
  from assms(1) obtain a b c d e f g h i where s: "s = [[a, b, c], [d, e, f], [g, h, i]]"
    by (rule is_3x3_cells)
  from assms(2) s consider
    (c0) "a = 0"
  | (c1) "a \<noteq> 0" "b = 0"
  | (c2) "a \<noteq> 0" "b \<noteq> 0" "c = 0"
  | (c3) "a \<noteq> 0" "b \<noteq> 0" "c \<noteq> 0" "d = 0"
  | (c4) "a \<noteq> 0" "b \<noteq> 0" "c \<noteq> 0" "d \<noteq> 0" "e = 0"
  | (c5) "a \<noteq> 0" "b \<noteq> 0" "c \<noteq> 0" "d \<noteq> 0" "e \<noteq> 0" "f = 0"
  | (c6) "a \<noteq> 0" "b \<noteq> 0" "c \<noteq> 0" "d \<noteq> 0" "e \<noteq> 0" "f \<noteq> 0" "g = 0"
  | (c7) "a \<noteq> 0" "b \<noteq> 0" "c \<noteq> 0" "d \<noteq> 0" "e \<noteq> 0" "f \<noteq> 0" "g \<noteq> 0" "h = 0"
  | (c8) "a \<noteq> 0" "b \<noteq> 0" "c \<noteq> 0" "d \<noteq> 0" "e \<noteq> 0" "f \<noteq> 0" "g \<noteq> 0" "h \<noteq> 0" "i = 0"
    by auto
  then show ?thesis
  proof cases
    case c0
    then show ?thesis
      by (intro exI[of _ "0::nat"] exI[of _ "0::nat"])
         (simp add: s find_zero_3x3 get_neighbors_00 all_less_3)
  next
    case c1
    then show ?thesis
      by (intro exI[of _ "0::nat"] exI[of _ "1::nat"])
         (simp add: s find_zero_3x3 get_neighbors_01 all_less_3)
  next
    case c2
    then show ?thesis
      by (intro exI[of _ "0::nat"] exI[of _ "2::nat"])
         (simp add: s find_zero_3x3 get_neighbors_02 all_less_3)
  next
    case c3
    then show ?thesis
      by (intro exI[of _ "1::nat"] exI[of _ "0::nat"])
         (simp add: s find_zero_3x3 get_neighbors_10 all_less_3)
  next
    case c4
    then show ?thesis
      by (intro exI[of _ "1::nat"] exI[of _ "1::nat"])
         (simp add: s find_zero_3x3 get_neighbors_11 all_less_3)
  next
    case c5
    then show ?thesis
      by (intro exI[of _ "1::nat"] exI[of _ "2::nat"])
         (simp add: s find_zero_3x3 get_neighbors_12 all_less_3)
  next
    case c6
    then show ?thesis
      by (intro exI[of _ "2::nat"] exI[of _ "0::nat"])
         (simp add: s find_zero_3x3 get_neighbors_20 all_less_3)
  next
    case c7
    then show ?thesis
      by (intro exI[of _ "2::nat"] exI[of _ "1::nat"])
         (simp add: s find_zero_3x3 get_neighbors_21 all_less_3)
  next
    case c8
    then show ?thesis
      by (intro exI[of _ "2::nat"] exI[of _ "2::nat"])
         (simp add: s find_zero_3x3 get_neighbors_22 all_less_3)
  qed
qed

lemma find_zero_none:
  assumes "is_3x3 s" "0 \<notin> set (concat s)"
  shows "find_zero s = Inr None \<and> get_neighbors s = Inl TypeError"
proof -
  from assms(1) obtain a b c d e f g h i where s: "s = [[a, b, c], [d, e, f], [g, h, i]]"
    by (rule is_3x3_cells)
  with assms(2) show ?thesis
    by (simp add: nb_simps)
qed

lemma valid_goal_state: "valid_grid goal_state"
  by (auto simp: goal_state_def valid_grid_3x3)

lemma solvable_goal_state: "is_solvable goal_state"
  by (simp add: is_solvable_def flat_state_def goal_state_def count_inversions_eq)

lemma valid_one_slide_start: "valid_grid one_slide_start"
  by (auto simp: one_slide_start_def valid_grid_3x3)

lemma get_neighbors_goal_state:
  "get_neighbors goal_state = Inr [[[1, 2, 3], [4, 5, 0], [7, 8, 6]], [[1, 2, 3], [4, 5, 6], [7, 0, 8]]]"
  by (simp add: goal_state_def get_neighbors_22)

subsection \<open>shuffle_puzzle on values\<close>

lemma choice_mem: "ns \<noteq> [] \<Longrightarrow> \<exists>n \<in> set ns. choice k ns = Inr n"
  by (simp add: choice_def)

lemma shuffle_steps_valid:
  "valid_grid s \<Longrightarrow> \<exists>g. shuffle_steps rnd is s = Inr g \<and> valid_grid g \<and> is_solvable g = is_solvable s"
proof (induction "is" arbitrary: s)
  case Nil
  then show ?case by simp
next
  case (Cons i "is")
  from valid_neighbors[OF Cons.prems] obtain ns where
    ns: "get_neighbors s = Inr ns" "ns \<noteq> []" "\<forall>n \<in> set ns. valid_grid n \<and> is_solvable n = is_solvable s"
    by blast
  from choice_mem[OF ns(2), of "rnd i"] obtain n where n: "n \<in> set ns" "choice (rnd i) ns = Inr n"
    by blast
  with ns(3) have v: "valid_grid n" and p: "is_solvable n = is_solvable s" by auto
  from Cons.IH[OF v] obtain g where "shuffle_steps rnd is n = Inr g" "valid_grid g" "is_solvable g = is_solvable n"
    by blast
  with ns(1) n(2) p show ?case by (simp add: bind_err_def)
qed

subsection \<open>The store\<close>

text \<open>On a well-formed store \<^verbatim>\<open>get_neighbors\<close> and \<^verbatim>\<open>shuffle_puzzle\<close> on references compute the
  values that the functions on values compute, allocate their results and leave the objects
  present before the call as they were, except that \<^verbatim>\<open>shuffle_puzzle\<close> assigns to its
  argument.\<close>

lemma heap_extends_refl: "heap_extends h h"
  by (simp add: heap_extends_def)

lemma heap_extends_trans: "heap_extends h1 h2 \<Longrightarrow> heap_extends h2 h3 \<Longrightarrow> heap_extends h1 h3"
  by (auto simp: heap_extends_def)

lemma load_grid_extends:
  "heap_extends h h' \<Longrightarrow> wf_heap h \<Longrightarrow> b < next_grid h \<Longrightarrow> load_grid h' b = load_grid h b"
  by (simp add: heap_extends_def wf_heap_def load_grid_def)

lemma copy_rows_spec:
  assumes "copy_rows h rows = (h', rows')" "\<forall>r \<in> set rows. r < next_row h"
  shows "rows' = [next_row h..<next_row h + length rows] \<and>
         next_row h' = next_row h + length rows \<and>
         map (row_cells h') rows' = map (row_cells h) rows \<and>
         (\<forall>r < next_row h. row_cells h' r = row_cells h r) \<and>
         grid_rows h' = grid_rows h \<and> next_grid h' = next_grid h"
  using assms
proof (induction rows arbitrary: h h' rows')
  case Nil
  then show ?case by simp
next
  case (Cons row rows)
  define h1 where "h1 = h\<lparr>row_cells := (row_cells h)(next_row h := row_cells h row), next_row := Suc (next_row h)\<rparr>"
  obtain h2 rs2 where c: "copy_rows h1 rows = (h2, rs2)" by (cases "copy_rows h1 rows")
  from Cons.prems(1) c have eq: "h' = h2" "rows' = next_row h # rs2"
    by (simp_all add: alloc_row_def h1_def)
  from Cons.prems(2) have "\<forall>r \<in> set rows. r < next_row h1" by (auto simp: h1_def)
  from Cons.IH[OF c this] have ih:
    "rs2 = [next_row h1..<next_row h1 + length rows]"
    "next_row h2 = next_row h1 + length rows"
    "map (row_cells h2) rs2 = map (row_cells h1) rows"
    "\<forall>r < next_row h1. row_cells h2 r = row_cells h1 r"
    "grid_rows h2 = grid_rows h1" "next_grid h2 = next_grid h1"
    by auto
  have n1: "next_row h1 = Suc (next_row h)" by (simp add: h1_def)
  have g1: "grid_rows h1 = grid_rows h" "next_grid h1 = next_grid h" by (simp_all add: h1_def)
  have m1: "map (row_cells h1) rows = map (row_cells h) rows"
    using Cons.prems(2) by (auto simp: h1_def)
  have r0: "row_cells h2 (next_row h) = row_cells h row"
    using ih(4) n1 by (simp add: h1_def)
  have lo: "\<forall>r < next_row h. row_cells h2 r = row_cells h r"
    using ih(4) n1 by (simp add: h1_def)
  have u: "[next_row h..<next_row h + length (row # rows)] = next_row h # [next_row h1..<next_row h1 + length rows]"
    by (simp add: n1 upt_conv_Cons del: upt_Suc)
  have c1: "rows' = [next_row h..<next_row h + length (row # rows)]"
    by (simp only: u eq(2) ih(1))
  have c2: "next_row h' = next_row h + length (row # rows)"
    by (simp add: eq(1) ih(2) n1)
  have c3: "map (row_cells h') rows' = map (row_cells h) (row # rows)"
    by (simp add: eq r0 ih(3) m1)
  show ?case
    using c1 c2 c3 lo ih(5,6) g1 eq(1) by simp
qed

lemma copy_grid_spec:
  assumes "wf_heap h" "state < next_grid h" "copy_grid h state = (h1, a)"
  shows "a = next_grid h \<and> next_grid h1 = Suc (next_grid h) \<and>
         grid_rows h1 a = [next_row h..<next_row h1] \<and>
         load_grid h1 a = load_grid h state \<and> next_row h \<le> next_row h1 \<and>
         (\<forall>r < next_row h. row_cells h1 r = row_cells h r) \<and>
         (\<forall>b < next_grid h. grid_rows h1 b = grid_rows h b)"
proof -
  obtain h0 rows where c: "copy_rows h (grid_rows h state) = (h0, rows)"
    by (cases "copy_rows h (grid_rows h state)")
  from assms(1,2) have "\<forall>r \<in> set (grid_rows h state). r < next_row h"
    by (simp add: wf_heap_def)
  from copy_rows_spec[OF c this] have sp:
    "rows = [next_row h..<next_row h + length (grid_rows h state)]"
    "next_row h0 = next_row h + length (grid_rows h state)"
    "map (row_cells h0) rows = map (row_cells h) (grid_rows h state)"
    "\<forall>r < next_row h. row_cells h0 r = row_cells h r"
    "grid_rows h0 = grid_rows h" "next_grid h0 = next_grid h"
    by auto
  from assms(3) c have h1: "h1 = h0\<lparr>grid_rows := (grid_rows h0)(next_grid h0 := rows), next_grid := Suc (next_grid h0)\<rparr>"
    and a: "a = next_grid h0"
    by (auto simp: copy_grid_def alloc_grid_def)
  show ?thesis
    using sp by (simp add: h1 a load_grid_def)
qed

lemma getcell_load: "getcell h a r c = grid_get (load_grid h a) r c"
  by (auto simp: getcell_def grid_get_def load_grid_def getitem_def py_index_def bind_err_def)

lemma map_upd_distinct:
  "distinct rs \<Longrightarrow> k < length rs \<Longrightarrow> map (f(rs ! k := x)) rs = (map f rs)[k := x]"
  by (rule nth_equalityI) (auto simp: nth_list_update nth_eq_iff_index_eq)

lemma setcell_load:
  assumes "distinct (grid_rows h a)" "grid_set (load_grid h a) r c v = Inr G"
  shows "\<exists>h'. setcell h a r c v = Inr h' \<and> load_grid h' a = G \<and> grid_rows h' = grid_rows h \<and>
           next_row h' = next_row h \<and> next_grid h' = next_grid h \<and>
           (\<forall>row. row \<notin> set (grid_rows h a) \<longrightarrow> row_cells h' row = row_cells h row)"
proof -
  let ?rs = "grid_rows h a"
  from assms(2) obtain k where k: "py_index (load_grid h a) r = Inr k"
    by (auto simp: grid_set_def getitem_def bind_err_def split: sum.splits)
  then have k': "py_index ?rs r = Inr k" and kl: "k < length ?rs"
    by (auto simp: py_index_def load_grid_def split: if_splits)
  from assms(2) k obtain j where j: "py_index (row_cells h (?rs ! k)) c = Inr j"
    using kl by (auto simp: grid_set_def getitem_def setitem_def bind_err_def load_grid_def split: sum.splits)
  from assms(2) k j kl have G: "G = (load_grid h a)[k := (row_cells h (?rs ! k))[j := v]]"
    by (auto simp: grid_set_def getitem_def setitem_def bind_err_def load_grid_def split: sum.splits)
  show ?thesis
    using k' j kl G assms(1)
    by (auto simp: setcell_def getitem_def setitem_def bind_err_def load_grid_def map_upd_distinct)
qed

lemma slide_h_refines:
  assumes wf: "wf_heap h" and st: "state < next_grid h"
    and sl: "slide (load_grid h state) zero_pos new_pos = Inr G"
  shows "\<exists>h'. slide_h h state zero_pos new_pos = Inr (h', next_grid h) \<and>
           load_grid h' (next_grid h) = G \<and> heap_extends h h' \<and> wf_heap h' \<and>
           next_grid h' = Suc (next_grid h)"
proof -
  obtain h1 a where c: "copy_grid h state = (h1, a)" by (cases "copy_grid h state")
  from copy_grid_spec[OF wf st c] have sp:
    "a = next_grid h" "next_grid h1 = Suc (next_grid h)"
    "grid_rows h1 a = [next_row h..<next_row h1]"
    "load_grid h1 a = load_grid h state" "next_row h \<le> next_row h1"
    "\<forall>r < next_row h. row_cells h1 r = row_cells h r"
    "\<forall>b < next_grid h. grid_rows h1 b = grid_rows h b"
    by auto
  from sl obtain v S1 where
    v: "grid_get (load_grid h state) (fst new_pos) (snd new_pos) = Inr v" and
    s1: "grid_set (load_grid h state) (fst zero_pos) (snd zero_pos) v = Inr S1" and
    g: "grid_set S1 (fst new_pos) (snd new_pos) 0 = Inr G"
    by (auto simp: slide_def bind_err_def split: sum.splits)
  have d1: "distinct (grid_rows h1 a)" by (simp add: sp(3))
  from setcell_load[OF d1, of "fst zero_pos" "snd zero_pos" v S1] s1 sp(4)
  obtain h2 where h2: "setcell h1 a (fst zero_pos) (snd zero_pos) v = Inr h2"
    "load_grid h2 a = S1" "grid_rows h2 = grid_rows h1"
    "next_row h2 = next_row h1" "next_grid h2 = next_grid h1"
    "\<forall>row. row \<notin> set (grid_rows h1 a) \<longrightarrow> row_cells h2 row = row_cells h1 row"
    by auto
  have d2: "distinct (grid_rows h2 a)" by (simp add: h2(3) d1)
  from setcell_load[OF d2, of "fst new_pos" "snd new_pos" 0 G] g h2(2)
  obtain h3 where h3: "setcell h2 a (fst new_pos) (snd new_pos) 0 = Inr h3"
    "load_grid h3 a = G" "grid_rows h3 = grid_rows h2"
    "next_row h3 = next_row h2" "next_grid h3 = next_grid h2"
    "\<forall>row. row \<notin> set (grid_rows h2 a) \<longrightarrow> row_cells h3 row = row_cells h2 row"
    by auto
  have run: "slide_h h state zero_pos new_pos = Inr (h3, next_grid h)"
    using c v h2(1) h3(1) sp(1,4) by (simp add: slide_h_def getcell_load bind_err_def)
  have low: "\<forall>r < next_row h. row_cells h3 r = row_cells h r"
    using sp(3,6) h2(3,6) h3(6) by auto
  have ext: "heap_extends h h3"
    using low sp(2,5,7) h2(3,4,5) h3(3,4,5) by (simp add: heap_extends_def)
  have wf3: "wf_heap h3"
    unfolding wf_heap_def
  proof (intro allI impI ballI)
    fix b r assume b: "b < next_grid h3" and r: "r \<in> set (grid_rows h3 b)"
    show "r < next_row h3"
    proof (cases "b < next_grid h")
      case True
      with r sp(7) h2(3) h3(3) have "r \<in> set (grid_rows h b)" by simp
      with wf True have "r < next_row h" by (simp add: wf_heap_def)
      with sp(5) h2(4) h3(4) show ?thesis by simp
    next
      case False
      with b sp(1,2) h2(5) h3(5) have "b = a" by simp
      with r sp(3) h2(3,4) h3(3,4) show ?thesis by simp
    qed
  qed
  from run h3(2) sp(1,2) h2(5) h3(5) ext wf3 show ?thesis by simp
qed

lemma neighbors_loop_h_refines:
  assumes "wf_heap h" "state < next_grid h"
    and "neighbors_loop (load_grid h state) zero_pos ds (map (load_grid h) acc) = Inr ns"
    and "\<forall>a \<in> set acc. a < next_grid h"
  shows "\<exists>h' refs. neighbors_loop_h h state zero_pos ds acc = Inr (h', refs) \<and>
           map (load_grid h') refs = ns \<and> heap_extends h h' \<and> wf_heap h' \<and>
           (\<forall>a \<in> set refs. a \<in> set acc \<or> next_grid h \<le> a) \<and>
           (\<forall>a \<in> set refs. a < next_grid h')"
  using assms
proof (induction ds arbitrary: h acc)
  case Nil
  then show ?case by (auto simp: heap_extends_refl)
next
  case (Cons d ds)
  obtain dr dc where d: "d = (dr, dc)" by (cases d)
  from Cons.prems(3) obtain zr zc where z: "zero_pos = Some (zr, zc)"
    by (cases zero_pos) (auto simp: d)
  let ?nr = "zr + dr" and ?nc = "zc + dc"
  show ?case
  proof (cases "0 \<le> ?nr \<and> ?nr < GRID_SIZE \<and> 0 \<le> ?nc \<and> ?nc < GRID_SIZE")
    case False
    with Cons.prems(3) have "neighbors_loop (load_grid h state) zero_pos ds (map (load_grid h) acc) = Inr ns"
      by (simp add: d z Let_def)
    moreover have "neighbors_loop_h h state zero_pos (d # ds) acc = neighbors_loop_h h state zero_pos ds acc"
      using False by (auto simp: d z Let_def)
    ultimately show ?thesis
      using Cons.IH[OF Cons.prems(1,2) _ Cons.prems(4)] by simp
  next
    case True
    with Cons.prems(3) obtain G where
      sl: "slide (load_grid h state) (zr, zc) (?nr, ?nc) = Inr G" and
      rest: "neighbors_loop (load_grid h state) zero_pos ds (map (load_grid h) acc @ [G]) = Inr ns"
      by (auto simp: d z bind_err_def Let_def split: sum.splits)
    from slide_h_refines[OF Cons.prems(1,2) sl] obtain h1 where h1:
      "slide_h h state (zr, zc) (?nr, ?nc) = Inr (h1, next_grid h)"
      "load_grid h1 (next_grid h) = G" "heap_extends h h1" "wf_heap h1"
      "next_grid h1 = Suc (next_grid h)"
      by blast
    have st1: "state < next_grid h1" using Cons.prems(2) h1(5) by simp
    have ld: "load_grid h1 state = load_grid h state"
      by (rule load_grid_extends[OF h1(3) Cons.prems(1,2)])
    have m: "map (load_grid h1) acc = map (load_grid h) acc"
      using Cons.prems(4) load_grid_extends[OF h1(3) Cons.prems(1)] by simp
    have rest1:
      "neighbors_loop (load_grid h1 state) zero_pos ds (map (load_grid h1) (acc @ [next_grid h])) = Inr ns"
      using rest by (simp add: ld h1(2) m)
    have acc1: "\<forall>a \<in> set (acc @ [next_grid h]). a < next_grid h1"
      using Cons.prems(4) h1(5) by auto
    from Cons.IH[OF h1(4) st1 rest1 acc1] obtain h' refs where r:
      "neighbors_loop_h h1 state zero_pos ds (acc @ [next_grid h]) = Inr (h', refs)"
      "map (load_grid h') refs = ns" "heap_extends h1 h'" "wf_heap h'"
      "\<forall>a \<in> set refs. a \<in> set (acc @ [next_grid h]) \<or> next_grid h1 \<le> a"
      "\<forall>a \<in> set refs. a < next_grid h'"
      by blast
    have run: "neighbors_loop_h h state zero_pos (d # ds) acc = Inr (h', refs)"
      using True h1(1) r(1) by (simp add: d z bind_err_def Let_def)
    have fresh: "\<forall>a \<in> set refs. a \<in> set acc \<or> next_grid h \<le> a"
      using r(5) h1(5) by auto
    from run r(2,4,6) fresh heap_extends_trans[OF h1(3) r(3)] show ?thesis by blast
  qed
qed

lemma get_neighbors_h_refines:
  assumes "wf_heap h" "state < next_grid h" "get_neighbors (load_grid h state) = Inr ns"
  shows "\<exists>h' refs. get_neighbors_h h state = Inr (h', refs) \<and>
           map (load_grid h') refs = ns \<and> heap_extends h h' \<and> wf_heap h' \<and>
           (\<forall>a \<in> set refs. next_grid h \<le> a \<and> a < next_grid h')"
proof -
  from assms(3) obtain zp where zp: "find_zero (load_grid h state) = Inr zp"
    "neighbors_loop (load_grid h state) zp directions (map (load_grid h) []) = Inr ns"
    by (auto simp: get_neighbors_def bind_err_def split: sum.splits)
  from neighbors_loop_h_refines[OF assms(1,2) zp(2)] zp(1) show ?thesis
    by (auto simp: get_neighbors_h_def bind_err_def)
qed

lemma choice_map: "choice k refs = Inr a \<Longrightarrow> choice k (map f refs) = Inr (f a) \<and> a \<in> set refs"
  by (auto simp: choice_def split: if_splits)

lemma choice_map_ex: "choice k (map f refs) = Inr n \<Longrightarrow> \<exists>a. choice k refs = Inr a \<and> f a = n \<and> a \<in> set refs"
  by (auto simp: choice_def split: if_splits)

lemma shuffle_steps_h_refines:
  assumes "wf_heap h" "state < next_grid h" "shuffle_steps rnd is (load_grid h state) = Inr G"
  shows "\<exists>h'. shuffle_steps_h rnd is h state = Inr h' \<and> load_grid h' state = G \<and> wf_heap h' \<and>
           next_row h \<le> next_row h' \<and> next_grid h \<le> next_grid h' \<and>
           (\<forall>r < next_row h. row_cells h' r = row_cells h r) \<and>
           (\<forall>b < next_grid h. b \<noteq> state \<longrightarrow> grid_rows h' b = grid_rows h b)"
  using assms
proof (induction "is" arbitrary: h)
  case Nil
  then show ?case by simp
next
  case (Cons i "is")
  from Cons.prems(3) obtain ns n where
    ns: "get_neighbors (load_grid h state) = Inr ns" and
    n: "choice (rnd i) ns = Inr n" and
    rest: "shuffle_steps rnd is n = Inr G"
    by (auto simp: bind_err_def split: sum.splits)
  from get_neighbors_h_refines[OF Cons.prems(1,2) ns] obtain h1 refs where h1:
    "get_neighbors_h h state = Inr (h1, refs)" "map (load_grid h1) refs = ns"
    "heap_extends h h1" "wf_heap h1" "\<forall>a \<in> set refs. next_grid h \<le> a \<and> a < next_grid h1"
    by blast
  from n h1(2) choice_map_ex[of "rnd i" "load_grid h1" refs n] obtain chosen where
    ch: "choice (rnd i) refs = Inr chosen" "load_grid h1 chosen = n" "chosen \<in> set refs"
    by auto
  define h2 where "h2 = h1\<lparr>grid_rows := (grid_rows h1)(state := grid_rows h1 chosen)\<rparr>"
  have cn: "chosen < next_grid h1" using ch(3) h1(5) by simp
  have st1: "state < next_grid h1" using Cons.prems(2) h1(3) by (simp add: heap_extends_def)
  have wf2: "wf_heap h2"
    using h1(4) cn by (auto simp: wf_heap_def h2_def)
  have st2: "state < next_grid h2" using st1 by (simp add: h2_def)
  have ld2: "load_grid h2 state = n" using ch(2) by (simp add: h2_def load_grid_def)
  from rest ld2 have "shuffle_steps rnd is (load_grid h2 state) = Inr G" by simp
  from Cons.IH[OF wf2 st2 this] obtain h' where h': 
    "shuffle_steps_h rnd is h2 state = Inr h'" "load_grid h' state = G" "wf_heap h'"
    "next_row h2 \<le> next_row h'" "next_grid h2 \<le> next_grid h'"
    "\<forall>r < next_row h2. row_cells h' r = row_cells h2 r"
    "\<forall>b < next_grid h2. b \<noteq> state \<longrightarrow> grid_rows h' b = grid_rows h2 b"
    by blast
  have run: "shuffle_steps_h rnd (i # is) h state = Inr h'"
    using h1(1) ch(1) h'(1) by (simp add: bind_err_def h2_def)
  have e: "next_row h \<le> next_row h2" "next_grid h \<le> next_grid h2"
    "\<forall>r < next_row h. row_cells h2 r = row_cells h r"
    "\<forall>b < next_grid h. b \<noteq> state \<longrightarrow> grid_rows h2 b = grid_rows h b"
    using h1(3) by (simp_all add: heap_extends_def h2_def)
  have "next_row h \<le> next_row h'" "next_grid h \<le> next_grid h'"
    "\<forall>r < next_row h. row_cells h' r = row_cells h r"
    "\<forall>b < next_grid h. b \<noteq> state \<longrightarrow> grid_rows h' b = grid_rows h b"
    using e h'(4,5,6,7) by auto
  with run h'(2,3) show ?case by blast
qed

lemma shuffle_puzzle_h_refines:
  assumes "wf_heap h" "state < next_grid h" "valid_grid (load_grid h state)"
  shows "\<exists>h' G. shuffle_puzzle_h h state moves rnd = Inr (h', state) \<and>
           shuffle_puzzle (load_grid h state) moves rnd = Inr G \<and>
           load_grid h' state = G \<and> valid_grid G \<and>
           is_solvable G = is_solvable (load_grid h state) \<and>
           (\<forall>b < next_grid h. b \<noteq> state \<longrightarrow> load_grid h' b = load_grid h b)"
proof -
  from shuffle_steps_valid[OF assms(3), of rnd "[0..<nat moves]"] obtain G where
    G: "shuffle_steps rnd [0..<nat moves] (load_grid h state) = Inr G" "valid_grid G"
    "is_solvable G = is_solvable (load_grid h state)" by blast
  from shuffle_steps_h_refines[OF assms(1,2) G(1)] obtain h' where h':
    "shuffle_steps_h rnd [0..<nat moves] h state = Inr h'" "load_grid h' state = G"
    "\<forall>r < next_row h. row_cells h' r = row_cells h r"
    "\<forall>b < next_grid h. b \<noteq> state \<longrightarrow> grid_rows h' b = grid_rows h b"
    by blast
  have "\<forall>b < next_grid h. b \<noteq> state \<longrightarrow> load_grid h' b = load_grid h b"
    using h'(3,4) assms(1) by (simp add: load_grid_def wf_heap_def)
  with G h'(1,2) show ?thesis
    by (simp add: shuffle_puzzle_h_def shuffle_puzzle_def bind_err_def)
qed

lemma wf_module_heap: "wf_heap module_heap"
  by (simp add: wf_heap_def module_heap_def less_Suc_eq numeral_2_eq_2)

lemma load_module_heap: "load_grid module_heap initial_state_ref = goal_state"
  by (simp add: load_grid_def module_heap_def initial_state_ref_def goal_state_def)

lemma module_heap_refs:
  "initial_state_ref < next_grid module_heap"
  "goal_state_ref < next_grid module_heap" "goal_state_ref \<noteq> initial_state_ref"
  "load_grid module_heap goal_state_ref = goal_state"
  by (simp_all add: load_grid_def module_heap_def goal_state_ref_def initial_state_ref_def
      goal_state_def)

subsection \<open>reconstruct_path\<close>

lemma links_snoc:
  "links cf s (p @ [t]) = (links cf s p \<and> cf t = Some (last (s # p)))"
  by (induction p arbitrary: s) auto

lemma reconstruct_loop_links:
  "cf s = None \<Longrightarrow> links cf s p \<Longrightarrow> reconstruct_loop cf (last (s # p)) acc = Some (acc @ rev p)"
proof (induction p arbitrary: acc rule: rev_induct)
  case Nil
  then show ?case by (simp add: reconstruct_loop.simps)
next
  case (snoc t p)
  from snoc.prems have l: "links cf s p" and t: "cf t = Some (last (s # p))"
    by (simp_all add: links_snoc)
  have "reconstruct_loop cf t acc = reconstruct_loop cf (last (s # p)) (acc @ [t])"
    by (subst reconstruct_loop.simps) (simp add: t)
  also have "\<dots> = Some ((acc @ [t]) @ rev p)"
    by (rule snoc.IH[OF snoc.prems(1) l])
  finally show ?case by simp
qed

lemma reconstruct_loop_sound:
  "reconstruct_loop cf t acc = Some r \<Longrightarrow>
     \<exists>s p. cf s = None \<and> links cf s p \<and> last (s # p) = t \<and> r = acc @ rev p"
proof (induction cf t acc r rule: reconstruct_loop.raw_induct[rotated, consumes 1])
  case (1 loop cf t acc r)
  show "\<exists>s p. cf s = None \<and> links cf s p \<and> last (s # p) = t \<and> r = acc @ rev p"
  proof (cases "cf t")
    case None
    with 1(2) have "r = acc" by simp
    with None have "cf t = None \<and> links cf t [] \<and> last (t # []) = t \<and> r = acc @ rev []"
      by simp
    then show ?thesis by blast
  next
    case (Some prev)
    with 1(2) have "loop cf prev (acc @ [t]) = Some r" by simp
    from 1(1)[OF this] obtain s p where
      sp: "cf s = None" "links cf s p" "last (s # p) = prev" "r = (acc @ [t]) @ rev p"
      by blast
    have "links cf s (p @ [t])" using sp Some by (simp add: links_snoc)
    moreover have "last (s # p @ [t]) = t" by simp
    moreover have "r = acc @ rev (p @ [t])" using sp by simp
    ultimately show ?thesis using sp(1) by blast
  qed
qed

lemma reconstruct_path_iff:
  "reconstruct_path cf t = Some p \<longleftrightarrow> (\<exists>s. cf s = None \<and> links cf s p \<and> last (s # p) = t)"
proof
  assume "reconstruct_path cf t = Some p"
  then obtain r where r: "reconstruct_loop cf t [] = Some r" "p = rev r"
    by (auto simp: reconstruct_path_def)
  from reconstruct_loop_sound[OF r(1)] r(2) show "\<exists>s. cf s = None \<and> links cf s p \<and> last (s # p) = t"
    by auto
next
  assume "\<exists>s. cf s = None \<and> links cf s p \<and> last (s # p) = t"
  then obtain s where s: "cf s = None" "links cf s p" "last (s # p) = t" by blast
  from reconstruct_loop_links[OF s(1,2), of "[]"] s(3) show "reconstruct_path cf t = Some p"
    by (simp add: reconstruct_path_def)
qed

lemma links_last: "links cf s p \<Longrightarrow> p \<noteq> [] \<Longrightarrow> cf (last p) \<noteq> None"
  by (induction p arbitrary: s) auto

lemma reconstruct_path_empty_iff:
  "reconstruct_path cf t = Some [] \<longleftrightarrow> cf t = None"
  by (auto simp: reconstruct_path_iff)

lemma reconstruct_path_loop:
  "reconstruct_path [g \<mapsto> g] g = None"
proof (cases "reconstruct_path [g \<mapsto> g] g")
  case None
  then show ?thesis .
next
  case (Some p)
  then obtain s where s: "[g \<mapsto> g] s = None" "links [g \<mapsto> g] s p" "last (s # p) = g"
    by (auto simp: reconstruct_path_iff)
  from s(1) have ne: "s \<noteq> g" by (auto split: if_splits)
  show ?thesis
  proof (cases p)
    case Nil
    with s(3) ne show ?thesis by simp
  next
    case (Cons x xs)
    with s(2) have "[g \<mapsto> g] x = Some s" by simp
    with ne show ?thesis by (auto split: if_splits)
  qed
qed

lemma links_entries: "links cf s p \<Longrightarrow> x \<in> set p \<Longrightarrow> cf x \<noteq> None"
  by (induction p arbitrary: s) auto

lemma reconstruct_path_entries:
  "reconstruct_path cf t = Some p \<Longrightarrow> cf start = None \<Longrightarrow> start \<notin> set p"
  using links_entries[of cf _ p start] by (auto simp: reconstruct_path_iff)

lemma links_chain:
  "tree_from start cf \<Longrightarrow> links cf s p \<Longrightarrow> slide_chain (s # p)"
  by (induction p arbitrary: s) (auto simp: tree_from_def)

lemma reconstruct_path_tree:
  assumes "reconstruct_path cf t = Some p" "tree_from start cf" "cf start = None"
    "t = start \<or> cf t \<noteq> None"
  shows "solution_path start t (start # p)"
proof -
  from assms(1) obtain s where s: "cf s = None" "links cf s p" "last (s # p) = t"
    by (auto simp: reconstruct_path_iff)
  have "s = start"
  proof (cases p)
    case Nil
    with s(1,3) assms(4) show ?thesis by auto
  next
    case (Cons g gs)
    with s(2) have "cf g = Some s" by simp
    with assms(2) have "s = start \<or> cf s \<noteq> None" unfolding tree_from_def by blast
    with s(1) show ?thesis by simp
  qed
  with s links_chain[OF assms(2) s(2)] show ?thesis
    by (simp add: solution_path_def)
qed

subsection \<open>The list returned by bfs and ucs\<close>

text \<open>The start never gets an entry in the predecessor map, so the list that
  \<^verbatim>\<open>reconstruct_path\<close> returns to bfs and ucs never contains it; with the start put in
  front, the list is a path from the start to the goal.\<close>

lemma bfs_expand_keeps_start:
  "bfs_expand current ns (queue, visited, cf) = (queue', visited', cf') \<Longrightarrow>
   start \<in> visited \<Longrightarrow> cf start = None \<Longrightarrow> start \<in> visited' \<and> cf' start = None"
proof (induction ns arbitrary: queue visited cf)
  case Nil
  then show ?case by simp
next
  case (Cons n ns)
  show ?case
  proof (cases "n \<in> visited")
    case True
    with Cons.prems(1) have "bfs_expand current ns (queue, visited, cf) = (queue', visited', cf')"
      by simp
    from Cons.IH[OF this Cons.prems(2,3)] show ?thesis .
  next
    case False
    with Cons.prems(1) have e: "bfs_expand current ns
        (queue @ [n], insert n visited, cf(n \<mapsto> current)) = (queue', visited', cf')"
      by simp
    from False Cons.prems(2) have "n \<noteq> start" by auto
    with Cons.prems(3) have "(cf(n \<mapsto> current)) start = None" by simp
    from Cons.IH[OF e _ this] Cons.prems(2) show ?thesis by simp
  qed
qed

lemma bfs_loop_without_start:
  "bfs_loop goal queue visited cf = Some r \<Longrightarrow> start \<in> visited \<Longrightarrow> cf start = None \<Longrightarrow>
   r = Inr (Some p) \<Longrightarrow> start \<notin> set p"
proof (induction goal queue visited cf r rule: bfs_loop.raw_induct[rotated, consumes 1])
  case (1 loop goal queue visited cf r)
  show ?case
  proof (cases queue)
    case Nil
    with 1(2,5) show ?thesis by simp
  next
    case (Cons current rest)
    show ?thesis
    proof (cases "current = goal")
      case True
      with 1(2,5) Cons have "reconstruct_path cf current = Some p" by auto
      from reconstruct_path_entries[OF this 1(4)] show ?thesis .
    next
      case False
      show ?thesis
      proof (cases "get_neighbors current")
        case (Inl e)
        with 1(2,5) Cons False show ?thesis by simp
      next
        case (Inr ns)
        obtain q' v' cf' where e: "bfs_expand current ns (rest, visited, cf) = (q', v', cf')"
          by (cases "bfs_expand current ns (rest, visited, cf)")
        with 1(2) Cons False Inr have l: "loop goal q' v' cf' = Some r" by simp
        from bfs_expand_keeps_start[OF e 1(3,4)] have "start \<in> v'" "cf' start = None" by simp_all
        from 1(1)[OF l this 1(5)] show ?thesis .
      qed
    qed
  qed
qed

lemma bfs_without_start:
  "bfs start goal = Some (Inr (Some p)) \<Longrightarrow> start \<notin> set p"
  using bfs_loop_without_start[of goal "[start]" "{start}" Map.empty _ start p]
  by (simp add: bfs_def)

lemma ucs_expand_keeps_start:
  "ucs_expand current cost ns (pq, cf, csf) = (pq', cf', csf') \<Longrightarrow> 0 \<le> cost \<Longrightarrow>
   \<forall>e \<in> set pq. 0 \<le> fst e \<Longrightarrow> cf start = None \<Longrightarrow> csf start = Some 0 \<Longrightarrow>
   (\<forall>e \<in> set pq'. 0 \<le> fst e) \<and> cf' start = None \<and> csf' start = Some 0"
proof (induction ns arbitrary: pq cf csf)
  case Nil
  then show ?case by simp
next
  case (Cons n ns)
  show ?case
  proof (cases "case csf n of None \<Rightarrow> True | Some c \<Rightarrow> cost + 1 < c")
    case False
    with Cons.prems(1) have "ucs_expand current cost ns (pq, cf, csf) = (pq', cf', csf')"
      by (simp add: Let_def)
    from Cons.IH[OF this Cons.prems(2,3,4,5)] show ?thesis .
  next
    case True
    with Cons.prems(1) have e: "ucs_expand current cost ns
        (heappush pq (cost + 1, n), cf(n \<mapsto> current), csf(n \<mapsto> cost + 1)) = (pq', cf', csf')"
      by (simp add: Let_def)
    from True Cons.prems(2,5) have ne: "n \<noteq> start" by auto
    have a: "\<forall>e \<in> set (heappush pq (cost + 1, n)). 0 \<le> fst e"
      using Cons.prems(2,3) by (auto simp: heappush_def set_insort_key)
    have b: "(cf(n \<mapsto> current)) start = None" using ne Cons.prems(4) by simp
    have c: "(csf(n \<mapsto> cost + 1)) start = Some 0" using ne Cons.prems(5) by simp
    from Cons.IH[OF e Cons.prems(2) a b c] show ?thesis .
  qed
qed

lemma ucs_loop_without_start:
  "ucs_loop goal pq visited cf csf = Some r \<Longrightarrow> \<forall>e \<in> set pq. 0 \<le> fst e \<Longrightarrow>
   cf start = None \<Longrightarrow> csf start = Some 0 \<Longrightarrow> r = Inr (Some p) \<Longrightarrow> start \<notin> set p"
proof (induction goal pq visited cf csf r rule: ucs_loop.raw_induct[rotated, consumes 1])
  case (1 loop goal pq visited cf csf r)
  show ?case
  proof (cases pq)
    case Nil
    with 1(2,6) show ?thesis by simp
  next
    case (Cons e rest)
    obtain cost current where e: "e = (cost, current)" by (cases e)
    from 1(3) Cons e have c0: "0 \<le> cost" and rest: "\<forall>e \<in> set rest. 0 \<le> fst e" by auto
    show ?thesis
    proof (cases "current = goal")
      case True
      with 1(2,6) Cons e have "reconstruct_path cf current = Some p" by auto
      from reconstruct_path_entries[OF this 1(4)] show ?thesis .
    next
      case False
      note ng = this
      show ?thesis
      proof (cases "current \<in> visited")
        case True
        with 1(2) Cons e ng have "loop goal rest visited cf csf = Some r" by simp
        from 1(1)[OF this rest 1(4,5,6)] show ?thesis .
      next
        case False
        show ?thesis
        proof (cases "get_neighbors current")
          case (Inl err)
          with 1(2,6) Cons e ng False show ?thesis by simp
        next
          case (Inr ns)
          obtain pq' cf' csf' where x: "ucs_expand current cost ns (rest, cf, csf) = (pq', cf', csf')"
            by (cases "ucs_expand current cost ns (rest, cf, csf)")
          with 1(2) Cons e ng False Inr
          have l: "loop goal pq' (insert current visited) cf' csf' = Some r" by simp
          from ucs_expand_keeps_start[OF x c0 rest 1(4,5)]
          have "\<forall>e \<in> set pq'. 0 \<le> fst e" "cf' start = None" "csf' start = Some 0" by simp_all
          from 1(1)[OF l this 1(6)] show ?thesis .
        qed
      qed
    qed
  qed
qed

lemma ucs_without_start:
  "ucs start goal = Some (Inr (Some p)) \<Longrightarrow> start \<notin> set p"
  using ucs_loop_without_start[of goal "heappush [] (0, start)" "{}" Map.empty "[start \<mapsto> 0]" _ start p]
  by (simp add: ucs_def heappush_def)

lemma bfs_expand_tree:
  "bfs_expand current ns (queue, visited, cf) = (queue', visited', cf') \<Longrightarrow>
   \<forall>n \<in> set ns. is_neighbor current n \<Longrightarrow>
   current = start \<or> cf current \<noteq> None \<Longrightarrow>
   tree_from start cf \<Longrightarrow> \<forall>q \<in> set queue. q = start \<or> cf q \<noteq> None \<Longrightarrow>
   start \<in> visited \<Longrightarrow> cf start = None \<Longrightarrow>
   tree_from start cf' \<and> (\<forall>q \<in> set queue'. q = start \<or> cf' q \<noteq> None)"
proof (induction ns arbitrary: queue visited cf)
  case Nil
  then show ?case by simp
next
  case (Cons n ns)
  from Cons.prems(2) have n: "is_neighbor current n" and ns: "\<forall>n \<in> set ns. is_neighbor current n"
    by simp_all
  show ?case
  proof (cases "n \<in> visited")
    case True
    with Cons.prems(1) have "bfs_expand current ns (queue, visited, cf) = (queue', visited', cf')"
      by simp
    from Cons.IH[OF this ns Cons.prems(3,4,5,6,7)] show ?thesis .
  next
    case False
    with Cons.prems(1) have e: "bfs_expand current ns
        (queue @ [n], insert n visited, cf(n \<mapsto> current)) = (queue', visited', cf')"
      by simp
    let ?cf = "cf(n \<mapsto> current)"
    from False Cons.prems(6) have ne: "n \<noteq> start" by auto
    have c: "current = start \<or> ?cf current \<noteq> None" using Cons.prems(3) by auto
    have t: "tree_from start ?cf"
      using Cons.prems(3,4) n by (auto simp: tree_from_def)
    have q: "\<forall>q \<in> set (queue @ [n]). q = start \<or> ?cf q \<noteq> None"
      using Cons.prems(5) by auto
    have s: "start \<in> insert n visited" "?cf start = None"
      using Cons.prems(6,7) ne by simp_all
    from Cons.IH[OF e ns c t q s] show ?thesis .
  qed
qed

lemma bfs_loop_after_start:
  "bfs_loop goal queue visited cf = Some r \<Longrightarrow> tree_from start cf \<Longrightarrow>
   \<forall>q \<in> set queue. q = start \<or> cf q \<noteq> None \<Longrightarrow> start \<in> visited \<Longrightarrow> cf start = None \<Longrightarrow>
   r = Inr (Some p) \<Longrightarrow> solution_path start goal (start # p)"
proof (induction goal queue visited cf r rule: bfs_loop.raw_induct[rotated, consumes 1])
  case (1 loop goal queue visited cf r)
  show ?case
  proof (cases queue)
    case Nil
    with 1(2,7) show ?thesis by simp
  next
    case (Cons current rest)
    from 1(4) Cons have cur: "current = start \<or> cf current \<noteq> None"
      and rest: "\<forall>q \<in> set rest. q = start \<or> cf q \<noteq> None" by simp_all
    show ?thesis
    proof (cases "current = goal")
      case True
      with 1(2,7) Cons have "reconstruct_path cf goal = Some p" by auto
      from reconstruct_path_tree[OF this 1(3) 1(6)] cur True show ?thesis by simp
    next
      case False
      show ?thesis
      proof (cases "get_neighbors current")
        case (Inl e)
        with 1(2,7) Cons False show ?thesis by simp
      next
        case (Inr ns)
        obtain q' v' cf' where e: "bfs_expand current ns (rest, visited, cf) = (q', v', cf')"
          by (cases "bfs_expand current ns (rest, visited, cf)")
        with 1(2) Cons False Inr have l: "loop goal q' v' cf' = Some r" by simp
        have nb: "\<forall>n \<in> set ns. is_neighbor current n" using Inr by (simp add: is_neighbor_def)
        from bfs_expand_tree[OF e nb cur 1(3) rest 1(5,6)]
        have t: "tree_from start cf'" and q: "\<forall>q \<in> set q'. q = start \<or> cf' q \<noteq> None" by simp_all
        from bfs_expand_keeps_start[OF e 1(5,6)] have s: "start \<in> v'" "cf' start = None" by simp_all
        from 1(1)[OF l t q s 1(7)] show ?thesis .
      qed
    qed
  qed
qed

lemma bfs_path_after_start:
  "bfs start goal = Some (Inr (Some p)) \<Longrightarrow> solution_path start goal (start # p)"
  using bfs_loop_after_start[of goal "[start]" "{start}" Map.empty _ start p]
  by (simp add: bfs_def tree_from_def)

lemma ucs_expand_tree:
  "ucs_expand current cost ns (pq, cf, csf) = (pq', cf', csf') \<Longrightarrow>
   \<forall>n \<in> set ns. is_neighbor current n \<Longrightarrow> 0 \<le> cost \<Longrightarrow>
   current = start \<or> cf current \<noteq> None \<Longrightarrow>
   tree_from start cf \<Longrightarrow> \<forall>e \<in> set pq. snd e = start \<or> cf (snd e) \<noteq> None \<Longrightarrow>
   cf start = None \<Longrightarrow> csf start = Some 0 \<Longrightarrow>
   tree_from start cf' \<and> (\<forall>e \<in> set pq'. snd e = start \<or> cf' (snd e) \<noteq> None)"
proof (induction ns arbitrary: pq cf csf)
  case Nil
  then show ?case by simp
next
  case (Cons n ns)
  from Cons.prems(2) have n: "is_neighbor current n" and ns: "\<forall>n \<in> set ns. is_neighbor current n"
    by simp_all
  show ?case
  proof (cases "case csf n of None \<Rightarrow> True | Some c \<Rightarrow> cost + 1 < c")
    case False
    with Cons.prems(1) have "ucs_expand current cost ns (pq, cf, csf) = (pq', cf', csf')"
      by (simp add: Let_def)
    from Cons.IH[OF this ns Cons.prems(3,4,5,6,7,8)] show ?thesis .
  next
    case True
    with Cons.prems(1) have e: "ucs_expand current cost ns
        (heappush pq (cost + 1, n), cf(n \<mapsto> current), csf(n \<mapsto> cost + 1)) = (pq', cf', csf')"
      by (simp add: Let_def)
    let ?cf = "cf(n \<mapsto> current)"
    from True Cons.prems(3,8) have ne: "n \<noteq> start" by auto
    have c: "current = start \<or> ?cf current \<noteq> None" using Cons.prems(4) by auto
    have t: "tree_from start ?cf"
      using Cons.prems(4,5) n by (auto simp: tree_from_def)
    have q: "\<forall>e \<in> set (heappush pq (cost + 1, n)). snd e = start \<or> ?cf (snd e) \<noteq> None"
      using Cons.prems(6) by (auto simp: heappush_def set_insort_key)
    have s: "?cf start = None" "(csf(n \<mapsto> cost + 1)) start = Some 0"
      using Cons.prems(7,8) ne by simp_all
    from Cons.IH[OF e ns Cons.prems(3) c t q s] show ?thesis .
  qed
qed

lemma ucs_loop_after_start:
  "ucs_loop goal pq visited cf csf = Some r \<Longrightarrow> tree_from start cf \<Longrightarrow>
   \<forall>e \<in> set pq. snd e = start \<or> cf (snd e) \<noteq> None \<Longrightarrow> \<forall>e \<in> set pq. 0 \<le> fst e \<Longrightarrow>
   cf start = None \<Longrightarrow> csf start = Some 0 \<Longrightarrow>
   r = Inr (Some p) \<Longrightarrow> solution_path start goal (start # p)"
proof (induction goal pq visited cf csf r rule: ucs_loop.raw_induct[rotated, consumes 1])
  case (1 loop goal pq visited cf csf r)
  show ?case
  proof (cases pq)
    case Nil
    with 1(2,8) show ?thesis by simp
  next
    case (Cons e rest)
    obtain cost current where e: "e = (cost, current)" by (cases e)
    from 1(4,5) Cons e have cur: "current = start \<or> cf current \<noteq> None" and c0: "0 \<le> cost"
      and rest: "\<forall>e \<in> set rest. snd e = start \<or> cf (snd e) \<noteq> None"
      and rest0: "\<forall>e \<in> set rest. 0 \<le> fst e" by auto
    show ?thesis
    proof (cases "current = goal")
      case True
      with 1(2,8) Cons e have "reconstruct_path cf goal = Some p" by auto
      from reconstruct_path_tree[OF this 1(3) 1(6)] cur True show ?thesis by simp
    next
      case False
      note ng = this
      show ?thesis
      proof (cases "current \<in> visited")
        case True
        with 1(2) Cons e ng have "loop goal rest visited cf csf = Some r" by simp
        from 1(1)[OF this 1(3) rest rest0 1(6,7,8)] show ?thesis .
      next
        case False
        show ?thesis
        proof (cases "get_neighbors current")
          case (Inl err)
          with 1(2,8) Cons e ng False show ?thesis by simp
        next
          case (Inr ns)
          obtain pq' cf' csf' where x: "ucs_expand current cost ns (rest, cf, csf) = (pq', cf', csf')"
            by (cases "ucs_expand current cost ns (rest, cf, csf)")
          with 1(2) Cons e ng False Inr
          have l: "loop goal pq' (insert current visited) cf' csf' = Some r" by simp
          have nb: "\<forall>n \<in> set ns. is_neighbor current n" using Inr by (simp add: is_neighbor_def)
          from ucs_expand_tree[OF x nb c0 cur 1(3) rest 1(6,7)]
          have t: "tree_from start cf'" and q: "\<forall>e \<in> set pq'. snd e = start \<or> cf' (snd e) \<noteq> None"
            by simp_all
          from ucs_expand_keeps_start[OF x c0 rest0 1(6,7)]
          have s: "\<forall>e \<in> set pq'. 0 \<le> fst e" "cf' start = None" "csf' start = Some 0" by simp_all
          from 1(1)[OF l t q s 1(8)] show ?thesis .
        qed
      qed
    qed
  qed
qed

lemma ucs_path_after_start:
  "ucs start goal = Some (Inr (Some p)) \<Longrightarrow> solution_path start goal (start # p)"
  using ucs_loop_after_start[of goal "heappush [] (0, start)" "{}" Map.empty "[start \<mapsto> 0]" _ start p]
  by (simp add: ucs_def heappush_def tree_from_def)

subsection \<open>dfs\<close>

text \<open>Entries deeper than the limit are dropped. dfs carries the path in its stack
  entries, and the path it returns runs from the start to the goal.\<close>

lemma dfs_loop_capped:
  "\<forall>e \<in> set stack. snd (snd e) > depth_limit \<Longrightarrow> dfs_loop goal depth_limit stack visited = Some (Inr None)"
proof (induction stack)
  case Nil
  show ?case by (subst dfs_loop.simps) simp
next
  case (Cons e stack)
  obtain current path depth where e: "e = (current, path, depth)" by (cases e)
  with Cons.prems have "depth > depth_limit" by simp
  then have "dfs_loop goal depth_limit (e # stack) visited = dfs_loop goal depth_limit stack visited"
    by (subst dfs_loop.simps) (simp add: e)
  with Cons show ?case by simp
qed

lemma dfs_push_depth:
  "\<forall>e \<in> set stack. snd (snd e) = depth + 1 \<Longrightarrow>
   \<forall>e \<in> set (fold (\<lambda>neighbor stack.
       if neighbor \<notin> visited then (neighbor, path @ [current], depth + 1) # stack else stack) ns stack). snd (snd e) = depth + 1"
proof (induction ns arbitrary: stack)
  case Nil
  then show ?case by simp
next
  case (Cons n ns)
  show ?case
  proof (cases "n \<in> visited")
    case True
    with Cons.IH[OF Cons.prems] show ?thesis by simp
  next
    case False
    from Cons.prems have "\<forall>e \<in> set ((n, path @ [current], depth + 1) # stack). snd (snd e) = depth + 1"
      by simp
    from Cons.IH[OF this] False show ?thesis by simp
  qed
qed

lemma dfs_capped_at_root:
  assumes "get_neighbors start = Inr ns" "start \<noteq> goal"
  shows "dfs start goal 0 = Some (Inr None)"
proof -
  have "\<forall>e \<in> set (dfs_push start [] 0 {start} ns []). snd (snd e) > 0"
    using dfs_push_depth[of "[]" 0 "{start}" "[]" start "rev ns"]
    by (auto simp: dfs_push_def)
  from dfs_loop_capped[OF this] show ?thesis
    using assms by (subst dfs_def, subst dfs_loop.simps) simp
qed

lemma slide_chain_snoc:
  "slide_chain (xs @ [a]) \<Longrightarrow> is_neighbor a n \<Longrightarrow> slide_chain ((xs @ [a]) @ [n])"
  by (induction xs rule: slide_chain.induct) auto

lemma dfs_push_paths:
  assumes "\<forall>e \<in> set stack. hd (fst (snd e) @ [fst e]) = start \<and> slide_chain (fst (snd e) @ [fst e])"
    and "hd (path @ [current]) = start" "slide_chain (path @ [current])"
    and "\<forall>n \<in> set ns. is_neighbor current n"
  shows "\<forall>e \<in> set (fold (\<lambda>neighbor stack.
       if neighbor \<notin> visited then (neighbor, path @ [current], depth + 1) # stack else stack) ns stack).
         hd (fst (snd e) @ [fst e]) = start \<and> slide_chain (fst (snd e) @ [fst e])"
  using assms(1,4)
proof (induction ns arbitrary: stack)
  case Nil
  then show ?case by simp
next
  case (Cons n ns)
  from Cons.prems(2) have n: "is_neighbor current n" and ns: "\<forall>n \<in> set ns. is_neighbor current n"
    by simp_all
  show ?case
  proof (cases "n \<in> visited")
    case True
    with Cons.IH[OF Cons.prems(1) ns] show ?thesis by simp
  next
    case False
    have "hd ((path @ [current]) @ [n]) = start" using assms(2) by (cases path) simp_all
    moreover have "slide_chain ((path @ [current]) @ [n])"
      by (rule slide_chain_snoc[OF assms(3) n])
    ultimately have "\<forall>e \<in> set ((n, path @ [current], depth + 1) # stack).
        hd (fst (snd e) @ [fst e]) = start \<and> slide_chain (fst (snd e) @ [fst e])"
      using Cons.prems(1) by simp
    from Cons.IH[OF this ns] False show ?thesis by simp
  qed
qed

lemma dfs_loop_sound:
  "dfs_loop goal depth_limit stack visited = Some r \<Longrightarrow>
   \<forall>e \<in> set stack. hd (fst (snd e) @ [fst e]) = start \<and> slide_chain (fst (snd e) @ [fst e]) \<Longrightarrow>
   r = Inr (Some p) \<Longrightarrow> solution_path start goal p"
proof (induction goal depth_limit stack visited r rule: dfs_loop.raw_induct[rotated, consumes 1])
  case (1 loop goal depth_limit stack visited r)
  show ?case
  proof (cases stack)
    case Nil
    with 1(2,4) show ?thesis by simp
  next
    case (Cons e rest)
    obtain current path depth where e: "e = (current, path, depth)" by (cases e)
    from 1(3) Cons e have cur: "hd (path @ [current]) = start" "slide_chain (path @ [current])"
      and rest: "\<forall>e \<in> set rest. hd (fst (snd e) @ [fst e]) = start \<and> slide_chain (fst (snd e) @ [fst e])"
      by auto
    consider (deep) "depth > depth_limit" | (seen) "\<not> depth > depth_limit" "current \<in> visited"
      | (found) "\<not> depth > depth_limit" "current \<notin> visited" "current = goal"
      | (expand) "\<not> depth > depth_limit" "current \<notin> visited" "current \<noteq> goal"
      by blast
    then show ?thesis
    proof cases
      case deep
      with 1(2) Cons e have "loop goal depth_limit rest visited = Some r" by simp
      from 1(1)[OF this rest 1(4)] show ?thesis .
    next
      case seen
      with 1(2) Cons e have "loop goal depth_limit rest visited = Some r" by simp
      from 1(1)[OF this rest 1(4)] show ?thesis .
    next
      case found
      with 1(2,4) Cons e have "p = path @ [current]" by simp
      with cur found(3) show ?thesis by (simp add: solution_path_def)
    next
      case expand
      show ?thesis
      proof (cases "get_neighbors current")
        case (Inl err)
        with 1(2,4) Cons e expand show ?thesis by simp
      next
        case (Inr ns)
        with 1(2) Cons e expand have l: "loop goal depth_limit
            (dfs_push current path depth (insert current visited) ns rest) (insert current visited) = Some r"
          by simp
        have nb: "\<forall>n \<in> set (rev ns). is_neighbor current n"
          using Inr by (simp add: is_neighbor_def)
        have "\<forall>e \<in> set (dfs_push current path depth (insert current visited) ns rest).
            hd (fst (snd e) @ [fst e]) = start \<and> slide_chain (fst (snd e) @ [fst e])"
          unfolding dfs_push_def by (rule dfs_push_paths[OF rest cur nb])
        from 1(1)[OF l this 1(4)] show ?thesis .
      qed
    qed
  qed
qed

lemma dfs_sound:
  "dfs start goal depth_limit = Some (Inr (Some p)) \<Longrightarrow> solution_path start goal p"
  using dfs_loop_sound[of goal depth_limit "[(start, [], 0)]" "{}" _ start p]
  by (simp add: dfs_def)

subsection \<open>Evaluating the searches\<close>

lemmas eval_simps = goal_state_def one_slide_start_def two_slide_start_def left_start_def
  nb_simps reconstruct_path_def reconstruct_loop.simps is_solvable_def flat_state_def
  count_inversions_eq

section \<open>The claims\<close>

text \<open>
  Claim C1 (bfs returns a path of minimum length from start to goal, ucs one of the same
  length) fails on the code: \<^verbatim>\<open>reconstruct_path\<close> stops at the first grid without a
  predecessor and does not collect it, so the list that bfs and ucs return lacks the start
  (\<open>bfs_without_start\<close>, \<open>ucs_without_start\<close>). For the solvable grid two slides from the
  goal both return the two grids \<open>[one_slide_start, goal_state]\<close>: this list is not a path
  from the start, and it has one edge where the shortest path from the start, which has
  three grids, has two.
\<close>

theorem bfs_path_omits_start:
  "is_solvable two_slide_start \<and>
   bfs two_slide_start goal_state = Some (Inr (Some [one_slide_start, goal_state])) \<and>
   ucs two_slide_start goal_state = Some (Inr (Some [one_slide_start, goal_state])) \<and>
   \<not> solution_path two_slide_start goal_state [one_slide_start, goal_state] \<and>
   solution_path two_slide_start goal_state [two_slide_start, one_slide_start, goal_state]"
  by (simp add: eval_simps bfs_def bfs_loop.simps ucs_def ucs_loop.simps heappush_def
      solution_path_def is_neighbor_def)

text \<open>
  Claim C2 (the first element of every path returned by bfs, dfs or ucs is the start
  argument) fails for bfs and ucs: from \<open>left_start\<close> both return a list whose first
  element is \<open>one_slide_start\<close>, a neighbour of the start. With the start equal to the goal
  bfs returns the empty list, where dfs, whose paths do run from the start to the goal
  (\<open>dfs_sound\<close>), returns the one-element path.
\<close>

theorem search_path_first_element:
  "bfs left_start goal_state = Some (Inr (Some [one_slide_start, goal_state])) \<and>
   ucs left_start goal_state = Some (Inr (Some [one_slide_start, goal_state])) \<and>
   hd [one_slide_start, goal_state] \<noteq> left_start \<and>
   bfs goal_state goal_state = Some (Inr (Some [])) \<and>
   dfs goal_state goal_state 50 = Some (Inr (Some [goal_state]))"
  by (simp add: eval_simps bfs_def bfs_loop.simps ucs_def ucs_loop.simps heappush_def
      dfs_def dfs_loop.simps)

text \<open>
  Claim C3 (for the start one slide from the goal, is_solvable is true and bfs and ucs
  return the two-element path of start and goal): is_solvable is true, and bfs and ucs both
  return the one-element list \<open>[goal_state]\<close>.
\<close>

theorem one_slide_scenario:
  "is_solvable one_slide_start \<and>
   bfs one_slide_start goal_state = Some (Inr (Some [goal_state])) \<and>
   ucs one_slide_start goal_state = Some (Inr (Some [goal_state])) \<and>
   [goal_state] \<noteq> [one_slide_start, goal_state]"
  by (simp add: eval_simps bfs_def bfs_loop.simps ucs_def ucs_loop.simps heappush_def)

text \<open>
  Claim C4: for every valid grid \<open>g\<close>, get_neighbors returns a list, and is_solvable
  gives on each grid of the list the value it gives on \<open>g\<close>.
\<close>

theorem neighbors_keep_solvability:
  assumes "valid_grid g"
  shows "\<exists>ns. get_neighbors g = Inr ns \<and> (\<forall>n \<in> set ns. is_solvable n = is_solvable g)"
  using valid_neighbors[OF assms] by blast

theorem neighbors_keep_solvability_witness:
  "valid_grid goal_state \<and>
   is_solvable [[1, 2, 3], [4, 5, 0], [7, 8, 6]] = is_solvable goal_state \<and>
   is_solvable [[1, 2, 3], [4, 5, 6], [7, 0, 8]] = is_solvable goal_state"
  using neighbors_keep_solvability[OF valid_goal_state] valid_goal_state
  by (simp add: get_neighbors_goal_state)

text \<open>
  Claim C5: for every valid grid \<open>g\<close> with its blank at \<open>z\<close>, get_neighbors returns the
  grids \<open>swap_cells g z q\<close> for the cells \<open>q\<close> above, below, left of and right of the blank
  that lie in the grid, in this order: 2 grids when the blank is in a corner, 3 on an edge,
  4 in the centre. Each is a valid grid. On references, every grid returned is a new
  object, and every object of the store before the call, the argument among them, is
  unchanged.
\<close>

theorem get_neighbors_slides:
  assumes "valid_grid g"
  shows "\<exists>z ns. find_zero g = Inr (Some z) \<and> cell g z = 0 \<and>
           get_neighbors g = Inr ns \<and> ns = map (swap_cells g z) (blank_moves z) \<and>
           length ns = neighbor_count z \<and> 2 \<le> length ns \<and> length ns \<le> 4 \<and>
           (\<forall>n \<in> set ns. valid_grid n) \<and>
           (\<forall>h state. wf_heap h \<and> state < next_grid h \<and> load_grid h state = g \<longrightarrow>
              (\<exists>h' refs. get_neighbors_h h state = Inr (h', refs) \<and>
                 map (load_grid h') refs = ns \<and> heap_extends h h' \<and>
                 load_grid h' state = g \<and> (\<forall>r \<in> set refs. next_grid h \<le> r)))"
proof -
  from get_neighbors_spec[OF assms] obtain z where z:
    "find_zero g = Inr (Some z)" "cell g z = 0"
    "get_neighbors g = Inr (map (swap_cells g z) (blank_moves z))"
    "length (blank_moves z) = neighbor_count z"
    by blast
  let ?ns = "map (swap_cells g z) (blank_moves z)"
  from valid_neighbors[OF assms] z(3) have v: "\<forall>n \<in> set ?ns. valid_grid n" by auto
  have len: "2 \<le> length ?ns \<and> length ?ns \<le> 4"
    using z(4) by (simp add: neighbor_count_def)
  have hp: "\<exists>h' refs. get_neighbors_h h state = Inr (h', refs) \<and>
                 map (load_grid h') refs = ?ns \<and> heap_extends h h' \<and>
                 load_grid h' state = g \<and> (\<forall>r \<in> set refs. next_grid h \<le> r)"
    if "wf_heap h \<and> state < next_grid h \<and> load_grid h state = g" for h state
  proof -
    from that have w: "wf_heap h" and s: "state < next_grid h" and l: "load_grid h state = g"
      by simp_all
    from z(3) l have "get_neighbors (load_grid h state) = Inr ?ns" by simp
    from get_neighbors_h_refines[OF w s this] obtain h' refs where r:
      "get_neighbors_h h state = Inr (h', refs)" "map (load_grid h') refs = ?ns"
      "heap_extends h h'" "\<forall>a \<in> set refs. next_grid h \<le> a \<and> a < next_grid h'"
      by blast
    from load_grid_extends[OF r(3) w s] l have "load_grid h' state = g" by simp
    with r show ?thesis by blast
  qed
  from z v len hp show ?thesis by (intro exI[of _ z] exI[of _ ?ns]) simp
qed

theorem get_neighbors_slides_witness:
  "valid_grid goal_state \<and> find_zero goal_state = Inr (Some (2, 2)) \<and>
   get_neighbors goal_state =
     Inr [[[1, 2, 3], [4, 5, 0], [7, 8, 6]], [[1, 2, 3], [4, 5, 6], [7, 0, 8]]] \<and>
   valid_grid [[1, 2, 3], [4, 5, 0], [7, 8, 6]] \<and> valid_grid [[1, 2, 3], [4, 5, 6], [7, 0, 8]] \<and>
   wf_heap module_heap \<and> initial_state_ref < next_grid module_heap \<and>
   load_grid module_heap initial_state_ref = goal_state \<and>
   (\<exists>h' refs. get_neighbors_h module_heap initial_state_ref = Inr (h', refs) \<and>
      map (load_grid h') refs =
        [[[1, 2, 3], [4, 5, 0], [7, 8, 6]], [[1, 2, 3], [4, 5, 6], [7, 0, 8]]] \<and>
      load_grid h' initial_state_ref = goal_state \<and> load_grid h' goal_state_ref = goal_state)"
proof -
  from get_neighbors_slides[OF valid_goal_state] obtain z ns where r:
    "find_zero goal_state = Inr (Some z)" "get_neighbors goal_state = Inr ns"
    "\<forall>n \<in> set ns. valid_grid n"
    "\<forall>h state. wf_heap h \<and> state < next_grid h \<and> load_grid h state = goal_state \<longrightarrow>
       (\<exists>h' refs. get_neighbors_h h state = Inr (h', refs) \<and>
          map (load_grid h') refs = ns \<and> heap_extends h h' \<and>
          load_grid h' state = goal_state \<and> (\<forall>r \<in> set refs. next_grid h \<le> r))"
    by blast
  from r(2) have ns: "ns = [[[1, 2, 3], [4, 5, 0], [7, 8, 6]], [[1, 2, 3], [4, 5, 6], [7, 0, 8]]]"
    by (simp add: get_neighbors_goal_state)
  have i: "initial_state_ref < next_grid module_heap"
    by (simp add: initial_state_ref_def module_heap_def)
  have g: "goal_state_ref < next_grid module_heap"
    by (simp add: goal_state_ref_def module_heap_def)
  have lg: "load_grid module_heap goal_state_ref = goal_state"
    by (simp add: load_grid_def module_heap_def goal_state_ref_def goal_state_def)
  from r(4) wf_module_heap i load_module_heap obtain h' refs where h:
    "get_neighbors_h module_heap initial_state_ref = Inr (h', refs)"
    "map (load_grid h') refs = ns" "heap_extends module_heap h'"
    "load_grid h' initial_state_ref = goal_state"
    by blast
  from load_grid_extends[OF h(3) wf_module_heap g] lg
  have "load_grid h' goal_state_ref = goal_state" by simp
  with h ns have "\<exists>h' refs. get_neighbors_h module_heap initial_state_ref = Inr (h', refs) \<and>
      map (load_grid h') refs =
        [[[1, 2, 3], [4, 5, 0], [7, 8, 6]], [[1, 2, 3], [4, 5, 6], [7, 0, 8]]] \<and>
      load_grid h' initial_state_ref = goal_state \<and> load_grid h' goal_state_ref = goal_state"
    by (intro exI[of _ h'] exI[of _ refs]) simp
  moreover have "find_zero goal_state = Inr (Some (2, 2))"
    by (simp add: goal_state_def find_zero_3x3)
  ultimately show ?thesis
    using valid_goal_state r(3) ns wf_module_heap i load_module_heap
    by (simp add: get_neighbors_goal_state)
qed

text \<open>
  Claim C6, amended: reconstruct_path has no failure. It returns a list when
  \<open>terminal\<close> has no entry in the predecessor map, and in general exactly when the entries
  lead from \<open>terminal\<close> back to a grid \<open>start\<close> without an entry. The list it returns holds
  the grids of this walk after \<open>start\<close>, in start-to-goal order up to \<open>terminal\<close>; whether
  \<open>start\<close> itself stands in front of them is left open here.
\<close>

theorem reconstruct_path_walk:
  "((\<exists>path. reconstruct_path came_from terminal = Some path) \<longleftrightarrow>
      (\<exists>start chain. came_from start = None \<and> links came_from start chain \<and>
         last (start # chain) = terminal)) \<and>
   (came_from terminal = None \<longrightarrow> (\<exists>path. reconstruct_path came_from terminal = Some path)) \<and>
   (reconstruct_path came_from terminal = Some path \<longrightarrow>
      (\<exists>start chain. came_from start = None \<and> links came_from start chain \<and>
         last (start # chain) = terminal \<and> (path = chain \<or> path = start # chain)))"
proof (intro conjI impI)
  show "(\<exists>path. reconstruct_path came_from terminal = Some path) \<longleftrightarrow>
      (\<exists>start chain. came_from start = None \<and> links came_from start chain \<and>
         last (start # chain) = terminal)"
    by (simp add: reconstruct_path_iff) blast
next
  assume "came_from terminal = None"
  then have "reconstruct_path came_from terminal = Some []"
    by (simp add: reconstruct_path_empty_iff)
  then show "\<exists>path. reconstruct_path came_from terminal = Some path" by blast
next
  assume "reconstruct_path came_from terminal = Some path"
  then obtain start where "came_from start = None" "links came_from start path"
    "last (start # path) = terminal"
    by (auto simp: reconstruct_path_iff)
  then show "\<exists>start chain. came_from start = None \<and> links came_from start chain \<and>
         last (start # chain) = terminal \<and> (path = chain \<or> path = start # chain)"
    by blast
qed

theorem reconstruct_path_walk_witness:
  "(\<exists>path. reconstruct_path [one_slide_start \<mapsto> two_slide_start, goal_state \<mapsto> one_slide_start]
      goal_state = Some path) \<and>
   (\<exists>path. reconstruct_path [one_slide_start \<mapsto> two_slide_start, goal_state \<mapsto> one_slide_start]
      two_slide_start = Some path) \<and>
   (\<exists>start chain.
      [one_slide_start \<mapsto> two_slide_start, goal_state \<mapsto> one_slide_start] start = None \<and>
      links [one_slide_start \<mapsto> two_slide_start, goal_state \<mapsto> one_slide_start] start chain \<and>
      last (start # chain) = goal_state \<and>
      ([one_slide_start, goal_state] = chain \<or> [one_slide_start, goal_state] = start # chain))"
proof -
  let ?cf = "[one_slide_start \<mapsto> two_slide_start, goal_state \<mapsto> one_slide_start]"
  have n: "?cf two_slide_start = None"
    by (simp add: one_slide_start_def two_slide_start_def goal_state_def)
  have "?cf two_slide_start = None \<and> links ?cf two_slide_start [one_slide_start, goal_state] \<and>
        last (two_slide_start # [one_slide_start, goal_state]) = goal_state"
    by (simp add: one_slide_start_def two_slide_start_def goal_state_def)
  then have c: "\<exists>start chain. ?cf start = None \<and> links ?cf start chain \<and>
        last (start # chain) = goal_state"
    by blast
  have r: "reconstruct_path ?cf goal_state = Some [one_slide_start, goal_state]"
    by (simp add: reconstruct_path_def reconstruct_loop.simps one_slide_start_def
        two_slide_start_def goal_state_def)
  from reconstruct_path_walk[of ?cf goal_state "[one_slide_start, goal_state]"] c r
  have "(\<exists>path. reconstruct_path ?cf goal_state = Some path) \<and>
    (\<exists>start chain. ?cf start = None \<and> links ?cf start chain \<and>
      last (start # chain) = goal_state \<and>
      ([one_slide_start, goal_state] = chain \<or> [one_slide_start, goal_state] = start # chain))"
    by blast
  moreover from reconstruct_path_walk[of ?cf two_slide_start "[]"] n
  have "\<exists>path. reconstruct_path ?cf two_slide_start = Some path" by blast
  ultimately show ?thesis by blast
qed

text \<open>
  Claim C6 as stated (reconstruct_path fails when the terminal grid is absent from the
  predecessor map, and returns when it is present) is false: on the empty map the call
  returns, with the empty path; on a map that sends the terminal grid to itself the loop
  never ends.
\<close>

theorem reconstruct_path_absent_counterexample:
  "(Map.empty :: grid \<rightharpoonup> grid) goal_state = None \<and>
   reconstruct_path (Map.empty :: grid \<rightharpoonup> grid) goal_state = Some [] \<and>
   [goal_state \<mapsto> goal_state] goal_state \<noteq> None \<and>
   reconstruct_path [goal_state \<mapsto> goal_state] goal_state = None"
  by (simp add: reconstruct_path_loop reconstruct_path_empty_iff)

text \<open>
  Claim C7: for every valid start grid different from the goal, dfs with depth limit 0
  returns \<^verbatim>\<open>None\<close>.
\<close>

theorem dfs_depth_limit_zero:
  assumes "valid_grid start" "start \<noteq> goal"
  shows "dfs start goal 0 = Some (Inr None)"
proof -
  from valid_neighbors[OF assms(1)] obtain ns where "get_neighbors start = Inr ns" by blast
  from dfs_capped_at_root[OF this assms(2)] show ?thesis .
qed

theorem dfs_depth_limit_zero_witness:
  "valid_grid one_slide_start \<and> one_slide_start \<noteq> goal_state \<and>
   dfs one_slide_start goal_state 0 = Some (Inr None)"
proof -
  have ne: "one_slide_start \<noteq> goal_state"
    by (simp add: one_slide_start_def goal_state_def)
  from dfs_depth_limit_zero[OF valid_one_slide_start ne] valid_one_slide_start ne
  show ?thesis by simp
qed

text \<open>
  Claim C8: for every number \<open>N\<close> of moves and every sequence \<open>rnd\<close> of draws,
  shuffle_puzzle on the goal grid returns a valid grid on which is_solvable is true; on
  references, the object given to shuffle_puzzle holds such a grid after the call.
\<close>

theorem shuffle_goal_solvable:
  "(\<exists>g. shuffle_puzzle goal_state (int N) rnd = Inr g \<and> valid_grid g \<and> is_solvable g) \<and>
   (\<forall>h state. wf_heap h \<and> state < next_grid h \<and> load_grid h state = goal_state \<longrightarrow>
      (\<exists>h'. shuffle_puzzle_h h state (int N) rnd = Inr (h', state) \<and>
         valid_grid (load_grid h' state) \<and> is_solvable (load_grid h' state)))"
proof
  show "\<exists>g. shuffle_puzzle goal_state (int N) rnd = Inr g \<and> valid_grid g \<and> is_solvable g"
    using shuffle_steps_valid[OF valid_goal_state, of rnd "[0..<N]"] solvable_goal_state
    by (auto simp: shuffle_puzzle_def)
next
  show "\<forall>h state. wf_heap h \<and> state < next_grid h \<and> load_grid h state = goal_state \<longrightarrow>
      (\<exists>h'. shuffle_puzzle_h h state (int N) rnd = Inr (h', state) \<and>
         valid_grid (load_grid h' state) \<and> is_solvable (load_grid h' state))"
  proof (intro allI impI)
    fix h state
    assume a: "wf_heap h \<and> state < next_grid h \<and> load_grid h state = goal_state"
    then have v: "valid_grid (load_grid h state)" by (simp add: valid_goal_state)
    from a shuffle_puzzle_h_refines[OF _ _ v, of "int N" rnd] solvable_goal_state
    show "\<exists>h'. shuffle_puzzle_h h state (int N) rnd = Inr (h', state) \<and>
         valid_grid (load_grid h' state) \<and> is_solvable (load_grid h' state)"
      by auto
  qed
qed

theorem shuffle_goal_solvable_witness:
  "wf_heap module_heap \<and> initial_state_ref < next_grid module_heap \<and>
   load_grid module_heap initial_state_ref = goal_state \<and>
   (\<exists>g. shuffle_puzzle goal_state 30 first_choice = Inr g \<and> valid_grid g \<and> is_solvable g) \<and>
   (\<exists>h'. shuffle_puzzle_h module_heap initial_state_ref 30 first_choice
            = Inr (h', initial_state_ref) \<and>
          valid_grid (load_grid h' initial_state_ref) \<and>
          is_solvable (load_grid h' initial_state_ref))"
  using shuffle_goal_solvable[of 30 first_choice] wf_module_heap module_heap_refs(1)
    load_module_heap
  by simp

text \<open>
  Claim C9, amended: shuffle_puzzle changes its argument in place. For a valid grid held
  by the object \<open>state\<close> it returns the reference \<open>state\<close> itself, and after the call that
  object holds the shuffled grid; every other grid object of the store is unchanged.
\<close>

theorem shuffle_puzzle_in_place:
  assumes "wf_heap h" "state < next_grid h" "valid_grid (load_grid h state)"
  shows "\<exists>h' G. shuffle_puzzle_h h state moves rnd = Inr (h', state) \<and>
           shuffle_puzzle (load_grid h state) moves rnd = Inr G \<and>
           load_grid h' state = G \<and>
           (\<forall>b < next_grid h. b \<noteq> state \<longrightarrow> load_grid h' b = load_grid h b)"
  using shuffle_puzzle_h_refines[OF assms, of moves rnd] by blast

theorem shuffle_puzzle_in_place_witness:
  "wf_heap module_heap \<and> initial_state_ref < next_grid module_heap \<and>
   valid_grid (load_grid module_heap initial_state_ref) \<and>
   (\<exists>h' G. shuffle_puzzle_h module_heap initial_state_ref 30 first_choice = Inr (h', initial_state_ref) \<and>
      shuffle_puzzle goal_state 30 first_choice = Inr G \<and> load_grid h' initial_state_ref = G \<and>
      load_grid h' goal_state_ref = goal_state)"
proof -
  have v: "valid_grid (load_grid module_heap initial_state_ref)"
    by (simp add: load_module_heap valid_goal_state)
  from shuffle_puzzle_in_place[OF wf_module_heap module_heap_refs(1) v, of 30 first_choice]
    module_heap_refs
  have "\<exists>h' G. shuffle_puzzle_h module_heap initial_state_ref 30 first_choice = Inr (h', initial_state_ref) \<and>
      shuffle_puzzle goal_state 30 first_choice = Inr G \<and> load_grid h' initial_state_ref = G \<and>
      load_grid h' goal_state_ref = goal_state"
    by (auto simp: load_module_heap)
  with wf_module_heap module_heap_refs(1) v show ?thesis by blast
qed

text \<open>
  Claim C9 as stated (the result is a new grid and the argument keeps its value) is false:
  after one move on \<^verbatim>\<open>initial_state\<close>, the reference returned is that of
  \<^verbatim>\<open>initial_state\<close>, which held the goal grid and now holds a neighbour of it.
\<close>

theorem shuffle_puzzle_fresh_counterexample:
  "load_grid module_heap initial_state_ref = goal_state \<and>
  returned_grid (shuffle_puzzle_h module_heap initial_state_ref 1 first_choice)
    = Inr (initial_state_ref, [[1, 2, 3], [4, 5, 0], [7, 8, 6]])"
  by (simp add: module_heap_def initial_state_ref_def goal_state_def returned_grid_def
      shuffle_puzzle_h_def get_neighbors_h_def load_grid_def find_zero_3x3 bind_err_def
      directions_def GRID_SIZE_def slide_h_def copy_grid_def alloc_row_def alloc_grid_def
      getcell_def setcell_def getitem_def setitem_def py_index_def choice_def first_choice_def)

text \<open>
  Claim C10: for a 3x3 grid with a cell equal to 0, find_zero returns the row and column
  of the first such cell in row-major order and get_neighbors returns a list; for a 3x3
  grid without one, find_zero returns \<^verbatim>\<open>None\<close> and get_neighbors raises \<^verbatim>\<open>TypeError\<close> when it
  indexes the position.
\<close>

theorem find_zero_precondition:
  assumes "is_3x3 s"
  shows "(0 \<in> set (concat s) \<longrightarrow>
            (\<exists>r c. r < 3 \<and> c < 3 \<and> find_zero s = Inr (Some (int r, int c)) \<and> s ! r ! c = 0 \<and>
               (\<forall>r' < 3. \<forall>c' < 3. r' < r \<or> r' = r \<and> c' < c \<longrightarrow> s ! r' ! c' \<noteq> 0) \<and>
               (\<exists>ns. get_neighbors s = Inr ns))) \<and>
         (0 \<notin> set (concat s) \<longrightarrow> find_zero s = Inr None \<and> get_neighbors s = Inl TypeError)"
  using find_zero_first[OF assms] find_zero_none[OF assms] by blast

theorem find_zero_precondition_witness:
  "is_3x3 one_slide_start \<and> find_zero one_slide_start = Inr (Some (2, 1)) \<and>
   (\<exists>ns. get_neighbors one_slide_start = Inr ns) \<and>
   is_3x3 [[1, 2, 3], [4, 5, 6], [7, 8, 9]] \<and>
   find_zero [[1, 2, 3], [4, 5, 6], [7, 8, 9]] = Inr None \<and>
   get_neighbors [[1, 2, 3], [4, 5, 6], [7, 8, 9]] = Inl TypeError"
proof -
  have a: "is_3x3 one_slide_start" by (simp add: is_3x3_def one_slide_start_def)
  have b: "is_3x3 [[1, 2, 3], [4, 5, 6], [7, 8, 9]]" by (simp add: is_3x3_def)
  have z: "0 \<in> set (concat one_slide_start)" by (simp add: one_slide_start_def)
  have nz: "0 \<notin> set (concat [[1, 2, 3], [4, 5, 6], [7, 8, 9::int]])" by simp
  have f: "find_zero one_slide_start = Inr (Some (2, 1))"
    by (simp add: one_slide_start_def find_zero_3x3)
  from find_zero_precondition[OF a] z have "\<exists>ns. get_neighbors one_slide_start = Inr ns"
    by blast
  moreover from find_zero_precondition[OF b] nz
  have "find_zero [[1, 2, 3], [4, 5, 6], [7, 8, 9]] = Inr None \<and>
        get_neighbors [[1, 2, 3], [4, 5, 6], [7, 8, 9]] = Inl TypeError"
    by blast
  ultimately show ?thesis using a b f by blast
qed

end
